theory Spec2Isabelle
  imports Main "HOL-Library.Word"
begin

unbundle bit_operations_syntax

section \<open>The physical memory manager of kernel/vm/pmm.cpp\<close>

text \<open>
  A shallow embedding of \<^verbatim>\<open>kernel/kernel/vm/pmm.cpp\<close> and of the inline helpers of
  \<^verbatim>\<open>kernel/kernel/vm/pmm_arena.h\<close>. Machine integers are words of the LP64 build:
  \<^verbatim>\<open>paddr_t\<close>, \<^verbatim>\<open>size_t\<close> and \<^verbatim>\<open>uintptr_t\<close> are 64 bits wide,
  \<^verbatim>\<open>uint\<close> is 32 bits wide and \<^verbatim>\<open>uint8_t\<close> is 8 bits wide, so every
  addition, subtraction and multiplication below wraps as it does in the program.

  A \<^verbatim>\<open>vm_page_t*\<close> that the program computes with is the machine address of the
  page structure. A pointer that may be null is an \<open>option\<close>: \<open>None\<close> is the null
  pointer. An out-parameter (\<^verbatim>\<open>paddr_t* pa\<close>, \<^verbatim>\<open>struct list_node* list\<close>) is the
  optional contents of the pointed-to object, returned updated. The intrusive list
  \<^verbatim>\<open>struct list_node\<close> is the list of the page structures linked on it, head first.
  \<^verbatim>\<open>DEBUG_ASSERT\<close> is a fatal assertion: a function that can trip one returns a sum
  whose left side is the halt.
\<close>

subsection \<open>Types and constants\<close>

type_synonym paddr_t = "64 word"
type_synonym size_t = "64 word"
type_synonym uintptr_t = "64 word"
type_synonym uint = "32 word"
type_synonym uint8_t = "8 word"
type_synonym status_t = int
type_synonym vm_page_ptr = "64 word"
type_synonym list_node = "vm_page_ptr list"

datatype fatal = ASSERT_FAILED

text \<open>
  The macros below are used by the two source files and declared in headers that are not
  part of them. They carry the values of the 64-bit build: 4 KiB pages, a 32-byte page
  structure, and bit 0 for both KMAP flags.
\<close>

definition PAGE_SIZE_SHIFT :: uint8_t where
  "PAGE_SIZE_SHIFT = 12"

definition PAGE_SIZE :: "64 word" where
  "PAGE_SIZE = 4096"

definition VM_PAGE_STRUCT_SIZE :: "64 word" where
  "VM_PAGE_STRUCT_SIZE = 32"

definition PMM_ALLOC_FLAG_KMAP :: uint where
  "PMM_ALLOC_FLAG_KMAP = 1"

definition PMM_ARENA_FLAG_KMAP :: uint where
  "PMM_ARENA_FLAG_KMAP = 1"

definition NO_ERROR :: status_t where
  "NO_ERROR = 0"


definition ROUNDDOWN :: "64 word \<Rightarrow> 64 word \<Rightarrow> 64 word" where
  "ROUNDDOWN a b = a AND NOT (b - 1)"

definition IS_PAGE_ALIGNED :: "64 word \<Rightarrow> bool" where
  "IS_PAGE_ALIGNED x \<longleftrightarrow> x AND (PAGE_SIZE - 1) = 0"

subsection \<open>Arenas (pmm\_arena.h)\<close>

record pmm_arena_info_t =
  info_name :: string
  info_flags :: uint
  info_priority :: uint
  info_base :: paddr_t
  info_size :: size_t

record PmmArena =
  arena_info :: pmm_arena_info_t
  page_array :: uintptr_t
  free_count :: size_t
  free_list :: list_node

text \<open>The allocator's global state: the arena list, and the end of the boot allocator's heap.\<close>

record pmm_state =
  arena_list :: "PmmArena list"
  boot_alloc_end :: uintptr_t

definition base :: "PmmArena \<Rightarrow> paddr_t" where
  "base a = info_base (arena_info a)"

definition size_arena :: "PmmArena \<Rightarrow> size_t" where
  "size_arena a = info_size (arena_info a)"

definition flags :: "PmmArena \<Rightarrow> uint" where
  "flags a = info_flags (arena_info a)"

definition priority :: "PmmArena \<Rightarrow> uint" where
  "priority a = info_priority (arena_info a)"

definition get_page :: "PmmArena \<Rightarrow> size_t \<Rightarrow> vm_page_ptr" where
  "get_page a index = page_array a + index * VM_PAGE_STRUCT_SIZE"

definition page_belongs_to_arena :: "PmmArena \<Rightarrow> vm_page_ptr \<Rightarrow> bool" where
  "page_belongs_to_arena a page \<longleftrightarrow>
     (let page_addr = page; page_array_base = page_array a
      in page_addr \<ge> page_array_base \<and>
         page_addr < page_array_base + (info_size (arena_info a) div PAGE_SIZE) * VM_PAGE_STRUCT_SIZE)"

definition page_address_from_arena :: "PmmArena \<Rightarrow> vm_page_ptr \<Rightarrow> paddr_t" where
  "page_address_from_arena a page =
     (let page_addr = page; page_array_base = page_array a
      in ((page_addr - page_array_base) div VM_PAGE_STRUCT_SIZE) * PAGE_SIZE + info_base (arena_info a))"

definition address_in_arena :: "PmmArena \<Rightarrow> paddr_t \<Rightarrow> bool" where
  "address_in_arena a address \<longleftrightarrow>
     address \<ge> info_base (arena_info a) \<and> address \<le> info_base (arena_info a) + info_size (arena_info a) - 1"

text \<open>The constructor: the in-class initialisers of the header, and the info pointer.\<close>

definition PmmArena_new :: "pmm_arena_info_t \<Rightarrow> PmmArena" where
  "PmmArena_new info =
     \<lparr>arena_info = info, page_array = 0, free_count = 0, free_list = []\<rparr>"

text \<open>
  Modelled from the spec: \<^verbatim>\<open>boot_alloc_mem\<close>, the boot-time bump allocator, which is
  an external collaborator of the source files (``allocate N bytes, never fails during
  boot''). It hands out the current end of its heap and moves the end up by the length.
\<close>

definition boot_alloc_mem :: "size_t \<Rightarrow> pmm_state \<Rightarrow> uintptr_t \<times> pmm_state" where
  "boot_alloc_mem len st = (boot_alloc_end st, st\<lparr>boot_alloc_end := boot_alloc_end st + len\<rparr>)"

text \<open>
  \<^verbatim>\<open>sizeof(PmmArena)\<close> on LP64: the two links of the list node it inherits, the info
  pointer, the page array pointer, the free count and the two links of the free list.
\<close>

definition SIZEOF_PmmArena :: size_t where
  "SIZEOF_PmmArena = 56"

text \<open>
  Modelled from the spec: \<^verbatim>\<open>PmmArena::BootAllocArray\<close> (\<open>initialize_frame_array\<close>),
  declared in the header and defined outside the source files. It allocates the frame
  array from the boot allocator, marks every frame free by putting all of them on the
  free list in ascending address order, and sets the free count to the number of frames.
\<close>

definition BootAllocArray :: "PmmArena \<Rightarrow> pmm_state \<Rightarrow> PmmArena \<times> pmm_state" where
  "BootAllocArray a st =
     (let page_count = size_arena a div PAGE_SIZE;
          (ptr, st') = boot_alloc_mem (page_count * VM_PAGE_STRUCT_SIZE) st;
          a' = a\<lparr>page_array := ptr\<rparr>
      in (a'\<lparr>free_count := page_count,
             free_list := map (\<lambda>i. get_page a' (of_nat i)) [0..<unat page_count]\<rparr>, st'))"

text \<open>
  Modelled from the spec: \<^verbatim>\<open>PmmArena::AllocPage\<close> (\<open>allocate_one\<close>) removes and
  returns the head of the free list and decrements the free count; with no free frame
  it returns null. The physical address of the frame goes to \<^verbatim>\<open>*pa\<close> when
  \<^verbatim>\<open>pa\<close> is not null.
\<close>

definition AllocPage ::
  "PmmArena \<Rightarrow> paddr_t option \<Rightarrow> vm_page_ptr option \<times> paddr_t option \<times> PmmArena" where
  "AllocPage a pa =
     (case free_list a of
        [] \<Rightarrow> (None, pa, a)
      | page # rest \<Rightarrow>
          (Some page,
           (case pa of None \<Rightarrow> None | Some _ \<Rightarrow> Some (page_address_from_arena a page)),
           a\<lparr>free_list := rest, free_count := free_count a - 1\<rparr>))"

text \<open>
  Modelled from the spec: \<^verbatim>\<open>PmmArena::AllocSpecific\<close> (\<open>allocate_specific\<close>)
  computes the frame index of the address, which must be in the arena; if that frame is
  free it is taken off the free list and returned, else the answer is null.
\<close>

definition AllocSpecific :: "PmmArena \<Rightarrow> paddr_t \<Rightarrow> vm_page_ptr option \<times> PmmArena" where
  "AllocSpecific a pa =
     (if \<not> address_in_arena a pa then (None, a)
      else
        (let index = (pa - base a) div PAGE_SIZE;
             page = get_page a index
         in if page \<in> set (free_list a)
            then (Some page,
                  a\<lparr>free_list := remove1 page (free_list a), free_count := free_count a - 1\<rparr>)
            else (None, a)))"

text \<open>
  Modelled from the spec: \<^verbatim>\<open>PmmArena::AllocPages\<close> (\<open>allocate_up_to\<close>) pops from
  the free list until \<open>count\<close> frames are collected or the free list is empty, appends
  what it collected to the caller's list and returns how many that is.
\<close>

definition AllocPages :: "PmmArena \<Rightarrow> size_t \<Rightarrow> list_node \<Rightarrow> size_t \<times> list_node \<times> PmmArena" where
  "AllocPages a count list =
     (let n = min (unat count) (length (free_list a))
      in (of_nat n, list @ take n (free_list a),
          a\<lparr>free_list := drop n (free_list a), free_count := free_count a - of_nat n\<rparr>))"

text \<open>
  Modelled from the spec: \<^verbatim>\<open>PmmArena::AllocContiguous\<close> (\<open>allocate_contiguous_run\<close>)
  scans the frame array for the first index \<open>i\<close> whose address satisfies the alignment
  and for which all of \<open>i .. i + count - 1\<close> are free. On success it takes those frames
  off the free list, appends them in ascending address order to the caller's list, stores
  the base address of the run and returns \<open>count\<close>; on failure it returns 0 and changes
  nothing.
\<close>

definition find_run :: "PmmArena \<Rightarrow> nat \<Rightarrow> nat \<Rightarrow> nat option" where
  "find_run a count alignment_log2 =
     (let n = unat (size_arena a div PAGE_SIZE)
      in find (\<lambda>i. i + count \<le> n \<and>
                    unat (base a + of_nat i * PAGE_SIZE) mod 2 ^ alignment_log2 = 0 \<and>
                    list_all (\<lambda>j. get_page a (of_nat j) \<in> set (free_list a)) [i..<i + count])
           [0..<n])"

definition AllocContiguous ::
  "PmmArena \<Rightarrow> size_t \<Rightarrow> uint8_t \<Rightarrow> paddr_t option \<Rightarrow> list_node option \<Rightarrow>
   size_t \<times> paddr_t option \<times> list_node option \<times> PmmArena" where
  "AllocContiguous a count alignment_log2 pa list =
     (case find_run a (unat count) (unat alignment_log2) of
        None \<Rightarrow> (0, pa, list, a)
      | Some i \<Rightarrow>
          (let run = map (\<lambda>j. get_page a (of_nat j)) [i..<i + unat count]
           in (count,
               (case pa of None \<Rightarrow> None | Some _ \<Rightarrow> Some (base a + of_nat i * PAGE_SIZE)),
               (case list of None \<Rightarrow> None | Some l \<Rightarrow> Some (l @ run)),
               a\<lparr>free_list := filter (\<lambda>p. p \<notin> set run) (free_list a),
                 free_count := free_count a - count\<rparr>)))"


text \<open>
  Modelled from the spec: \<^verbatim>\<open>page_is_free\<close>, declared outside the source files. A
  frame's state is implied by list membership: it is free when it is on the free list of
  an arena.
\<close>

definition page_is_free :: "pmm_state \<Rightarrow> vm_page_ptr \<Rightarrow> bool" where
  "page_is_free st page \<longleftrightarrow> list_ex (\<lambda>a. page \<in> set (free_list a)) (arena_list st)"

subsection \<open>Address translation (pmm.cpp)\<close>

fun vm_page_to_paddr_loop :: "PmmArena list \<Rightarrow> vm_page_ptr \<Rightarrow> paddr_t" where
  "vm_page_to_paddr_loop [] page = - 1"
| "vm_page_to_paddr_loop (a # as) page =
     (if page_belongs_to_arena a page then page_address_from_arena a page
      else vm_page_to_paddr_loop as page)"

definition vm_page_to_paddr :: "pmm_state \<Rightarrow> vm_page_ptr \<Rightarrow> paddr_t" where
  "vm_page_to_paddr st page = vm_page_to_paddr_loop (arena_list st) page"

fun paddr_to_vm_page_loop :: "PmmArena list \<Rightarrow> paddr_t \<Rightarrow> vm_page_ptr option" where
  "paddr_to_vm_page_loop [] addr = None"
| "paddr_to_vm_page_loop (a # as) addr =
     (if address_in_arena a addr
      then (let index = (addr - base a) div PAGE_SIZE in Some (get_page a index))
      else paddr_to_vm_page_loop as addr)"

definition paddr_to_vm_page :: "pmm_state \<Rightarrow> paddr_t \<Rightarrow> vm_page_ptr option" where
  "paddr_to_vm_page st addr = paddr_to_vm_page_loop (arena_list st) addr"

subsection \<open>Registration (pmm.cpp)\<close>

text \<open>
  The walk of \<^verbatim>\<open>pmm_add_arena\<close>: the new arena goes before the first arena of a
  greater priority value, or to the end of the list.
\<close>

fun pmm_add_arena_walk :: "PmmArena \<Rightarrow> PmmArena list \<Rightarrow> PmmArena list" where
  "pmm_add_arena_walk arena [] = [arena]"
| "pmm_add_arena_walk arena (a # as) =
     (if priority a > priority arena then arena # a # as
      else a # pmm_add_arena_walk arena as)"

text \<open>
  \<^verbatim>\<open>arena\<close> is a pointer, so \<^verbatim>\<open>arena->BootAllocArray()\<close> at \<^verbatim>\<open>done_add\<close>
  fills in the object that the walk has linked into the list. The walk reads priorities
  only, which \<^verbatim>\<open>BootAllocArray\<close> leaves alone; the model links the filled-in object.
\<close>

definition pmm_add_arena :: "pmm_arena_info_t \<Rightarrow> pmm_state \<Rightarrow> fatal + (status_t \<times> pmm_state)" where
  "pmm_add_arena info st =
     (if \<not> IS_PAGE_ALIGNED (info_base info) then Inl ASSERT_FAILED
      else if \<not> IS_PAGE_ALIGNED (info_size info) then Inl ASSERT_FAILED
      else if \<not> info_size info > 0 then Inl ASSERT_FAILED
      else
        (let (mem, st1) = boot_alloc_mem SIZEOF_PmmArena st;
             arena = PmmArena_new info;
             (arena', st2) = BootAllocArray arena st1
         in Inr (NO_ERROR, st2\<lparr>arena_list := pmm_add_arena_walk arena' (arena_list st2)\<rparr>)))"

text \<open>A boot sequence: the regions are registered one after the other.\<close>

fun pmm_add_arenas :: "pmm_arena_info_t list \<Rightarrow> pmm_state \<Rightarrow> fatal + pmm_state" where
  "pmm_add_arenas [] st = Inr st"
| "pmm_add_arenas (info # infos) st =
     (case pmm_add_arena info st of
        Inl e \<Rightarrow> Inl e
      | Inr (_, st') \<Rightarrow> pmm_add_arenas infos st')"

subsection \<open>Allocation (pmm.cpp)\<close>

text \<open>The test that skips an arena: the caller asked for KMAP and the arena is not KMAP.\<close>

definition skip_arena :: "uint \<Rightarrow> PmmArena \<Rightarrow> bool" where
  "skip_arena alloc_flags a \<longleftrightarrow>
     alloc_flags AND PMM_ALLOC_FLAG_KMAP \<noteq> 0 \<and> flags a AND PMM_ARENA_FLAG_KMAP = 0"

fun pmm_alloc_page_loop ::
  "uint \<Rightarrow> paddr_t option \<Rightarrow> PmmArena list \<Rightarrow> vm_page_ptr option \<times> paddr_t option \<times> PmmArena list" where
  "pmm_alloc_page_loop alloc_flags pa [] = (None, pa, [])"
| "pmm_alloc_page_loop alloc_flags pa (a # as) =
     (if skip_arena alloc_flags a
      then (let (page, pa', as') = pmm_alloc_page_loop alloc_flags pa as in (page, pa', a # as'))
      else
        (case AllocPage a pa of
           (Some page, pa', a') \<Rightarrow> (Some page, pa', a' # as)
         | (None, pa', a') \<Rightarrow>
             (let (page, pa'', as') = pmm_alloc_page_loop alloc_flags pa' as
              in (page, pa'', a' # as'))))"

definition pmm_alloc_page ::
  "uint \<Rightarrow> paddr_t option \<Rightarrow> pmm_state \<Rightarrow> vm_page_ptr option \<times> paddr_t option \<times> pmm_state" where
  "pmm_alloc_page alloc_flags pa st =
     (let (page, pa', as') = pmm_alloc_page_loop alloc_flags pa (arena_list st)
      in (page, pa', st\<lparr>arena_list := as'\<rparr>))"

fun pmm_alloc_pages_loop ::
  "size_t \<Rightarrow> uint \<Rightarrow> list_node \<Rightarrow> PmmArena list \<Rightarrow> size_t \<times> list_node \<times> PmmArena list" where
  "pmm_alloc_pages_loop count alloc_flags list [] = (0, list, [])"
| "pmm_alloc_pages_loop count alloc_flags list (a # as) =
     (if skip_arena alloc_flags a
      then (let (allocated, list', as') = pmm_alloc_pages_loop count alloc_flags list as
            in (allocated, list', a # as'))
      else
        (let (allocated, list', a') = AllocPages a count list
         in if allocated > 0 then (allocated, list', a' # as)
            else (let (allocated', list'', as') = pmm_alloc_pages_loop count alloc_flags list' as
                  in (allocated', list'', a' # as'))))"

definition pmm_alloc_pages ::
  "size_t \<Rightarrow> uint \<Rightarrow> list_node option \<Rightarrow> pmm_state \<Rightarrow> fatal + (size_t \<times> list_node option \<times> pmm_state)" where
  "pmm_alloc_pages count alloc_flags list st =
     (case list of
        None \<Rightarrow> Inl ASSERT_FAILED
      | Some l \<Rightarrow>
          (if count = 0 then Inr (0, Some l, st)
           else
             (let (allocated, l', as') = pmm_alloc_pages_loop count alloc_flags l (arena_list st)
              in Inr (allocated, Some l', st\<lparr>arena_list := as'\<rparr>))))"

text \<open>
  The inner \<^verbatim>\<open>while\<close> loop of \<^verbatim>\<open>pmm_alloc_range\<close> on one arena. A failed
  \<^verbatim>\<open>AllocSpecific\<close> breaks out of it. \<^verbatim>\<open>allocated\<close> is a \<^verbatim>\<open>uint\<close> and is
  converted to \<^verbatim>\<open>size_t\<close> where it is compared with \<^verbatim>\<open>count\<close>.
\<close>

function pmm_alloc_range_inner ::
  "size_t \<Rightarrow> PmmArena \<Rightarrow> uint \<Rightarrow> paddr_t \<Rightarrow> list_node option \<Rightarrow>
   uint \<times> paddr_t \<times> list_node option \<times> PmmArena" where
  "pmm_alloc_range_inner count a allocated address list =
     (if (ucast allocated :: size_t) < count \<and> address_in_arena a address
      then
        (case AllocSpecific a address of
           (None, a') \<Rightarrow> (allocated, address, list, a')
         | (Some page, a') \<Rightarrow>
             pmm_alloc_range_inner count a' (allocated + 1) (address + PAGE_SIZE)
               (case list of None \<Rightarrow> None | Some l \<Rightarrow> Some (l @ [page])))
      else (allocated, address, list, a))"
  by pat_completeness auto
termination
  apply (relation "measure (\<lambda>(count, a, allocated, address, list). length (free_list a))")
   apply simp
  apply (auto simp: AllocSpecific_def Let_def length_remove1 split: if_splits)
  subgoal for count a allocated address
    by (cases "free_list a") auto
  done

text \<open>The outer \<^verbatim>\<open>for\<close> loop of \<^verbatim>\<open>pmm_alloc_range\<close> over the arena list.\<close>

fun pmm_alloc_range_loop ::
  "size_t \<Rightarrow> uint \<Rightarrow> paddr_t \<Rightarrow> list_node option \<Rightarrow> PmmArena list \<Rightarrow>
   uint \<times> paddr_t \<times> list_node option \<times> PmmArena list" where
  "pmm_alloc_range_loop count allocated address list [] = (allocated, address, list, [])"
| "pmm_alloc_range_loop count allocated address list (a # as) =
     (let (allocated', address', list', a') = pmm_alloc_range_inner count a allocated address list
      in if (ucast allocated' :: size_t) = count then (allocated', address', list', a' # as)
         else (let (allocated'', address'', list'', as') =
                     pmm_alloc_range_loop count allocated' address' list' as
               in (allocated'', address'', list'', a' # as')))"

definition pmm_alloc_range ::
  "paddr_t \<Rightarrow> size_t \<Rightarrow> list_node option \<Rightarrow> pmm_state \<Rightarrow> size_t \<times> list_node option \<times> pmm_state" where
  "pmm_alloc_range address count list st =
     (if count = 0 then (0, list, st)
      else
        (let address' = ROUNDDOWN address PAGE_SIZE;
             (allocated, address'', list', as') =
               pmm_alloc_range_loop count 0 address' list (arena_list st)
         in (ucast allocated, list', st\<lparr>arena_list := as'\<rparr>)))"

text \<open>
  The loop of \<^verbatim>\<open>pmm_alloc_contiguous\<close>. The program assigns the result of
  \<^verbatim>\<open>AllocContiguous\<close> to \<^verbatim>\<open>count\<close> itself, so the next arena is asked for the
  value the previous one returned.
\<close>

fun pmm_alloc_contiguous_loop ::
  "size_t \<Rightarrow> uint \<Rightarrow> uint8_t \<Rightarrow> paddr_t option \<Rightarrow> list_node option \<Rightarrow> PmmArena list \<Rightarrow>
   size_t \<times> paddr_t option \<times> list_node option \<times> PmmArena list" where
  "pmm_alloc_contiguous_loop count alloc_flags alignment_log2 pa list [] = (0, pa, list, [])"
| "pmm_alloc_contiguous_loop count alloc_flags alignment_log2 pa list (a # as) =
     (if skip_arena alloc_flags a
      then (let (r, pa', list', as') =
                  pmm_alloc_contiguous_loop count alloc_flags alignment_log2 pa list as
            in (r, pa', list', a # as'))
      else
        (let (count', pa', list', a') = AllocContiguous a count alignment_log2 pa list
         in if count' > 0 then (count', pa', list', a' # as)
            else (let (r, pa'', list'', as') =
                        pmm_alloc_contiguous_loop count' alloc_flags alignment_log2 pa' list' as
                  in (r, pa'', list'', a' # as'))))"

definition pmm_alloc_contiguous ::
  "size_t \<Rightarrow> uint \<Rightarrow> uint8_t \<Rightarrow> paddr_t option \<Rightarrow> list_node option \<Rightarrow> pmm_state \<Rightarrow>
   size_t \<times> paddr_t option \<times> list_node option \<times> pmm_state" where
  "pmm_alloc_contiguous count alloc_flags alignment_log2 pa list st =
     (if count = 0 then (0, pa, list, st)
      else
        (let alignment_log2' =
               (if alignment_log2 < PAGE_SIZE_SHIFT then PAGE_SIZE_SHIFT else alignment_log2);
             (r, pa', list', as') =
               pmm_alloc_contiguous_loop count alloc_flags alignment_log2' pa list (arena_list st)
         in (r, pa', list', st\<lparr>arena_list := as'\<rparr>)))"

subsection \<open>Freeing (pmm.cpp)\<close>




subsection \<open>Predicates of the properties\<close>





text \<open>
  The invariant of the registry that this layer does not enforce: the physical ranges of
  two arenas do not overlap. The comparison is the one of \<^verbatim>\<open>address_in_arena\<close>.
\<close>

definition ranges_apart :: "PmmArena \<Rightarrow> PmmArena \<Rightarrow> bool" where
  "ranges_apart a b \<longleftrightarrow>
     base a + size_arena a - 1 < base b \<or> base b + size_arena b - 1 < base a"

fun no_overlap :: "PmmArena list \<Rightarrow> bool" where
  "no_overlap [] = True"
| "no_overlap (a # as) = (list_all (ranges_apart a) as \<and> no_overlap as)"

text \<open>The frame of an address in an arena, as \<^verbatim>\<open>AllocSpecific\<close> computes it.\<close>

definition frame_for :: "PmmArena \<Rightarrow> paddr_t \<Rightarrow> vm_page_ptr" where
  "frame_for a x = get_page a ((x - base a) div PAGE_SIZE)"

text \<open>
  The frames \<open>fs\<close> are the frames of consecutive pages from \<open>ad\<close> on, each inside the
  arena (one of the arenas) and on its free list.
\<close>

fun taken :: "PmmArena \<Rightarrow> paddr_t \<Rightarrow> list_node \<Rightarrow> bool" where
  "taken a ad [] = True"
| "taken a ad (p # fs) =
     (address_in_arena a ad \<and> p = frame_for a ad \<and> p \<in> set (free_list a) \<and>
      taken a (ad + PAGE_SIZE) fs)"

fun taken_in :: "PmmArena list \<Rightarrow> paddr_t \<Rightarrow> list_node \<Rightarrow> bool" where
  "taken_in as ad [] = True"
| "taken_in as ad (p # fs) =
     (list_ex (\<lambda>a. address_in_arena a ad \<and> p = frame_for a ad \<and> p \<in> set (free_list a)) as \<and>
      taken_in as (ad + PAGE_SIZE) fs)"

text \<open>The addresses of \<open>n\<close> consecutive pages from \<open>ad\<close> on.\<close>

definition range_pages :: "paddr_t \<Rightarrow> nat \<Rightarrow> paddr_t list" where
  "range_pages ad n = map (\<lambda>i. ad + of_nat i * PAGE_SIZE) [0..<n]"

text \<open>
  The position in the registry of the first arena that holds an address; the length of
  the registry when no arena holds it.
\<close>

fun arena_pos :: "PmmArena list \<Rightarrow> paddr_t \<Rightarrow> nat" where
  "arena_pos [] x = 0"
| "arena_pos (a # as) x = (if address_in_arena a x then 0 else Suc (arena_pos as x))"

text \<open>
  The page at an address is free: an arena holds the address, and the first arena that
  holds it has the frame of the page on its free list. A page that is not free is
  allocated or lies in no arena.
\<close>

fun page_free_at :: "PmmArena list \<Rightarrow> paddr_t \<Rightarrow> bool" where
  "page_free_at [] x = False"
| "page_free_at (a # as) x =
     (if address_in_arena a x then frame_for a x \<in> set (free_list a) else page_free_at as x)"

text \<open>
  Taking the page at an address: the frame of the page leaves the free list of the first
  arena that holds the address, and the free count of this arena goes down by one. This is
  what a successful \<^verbatim>\<open>AllocSpecific\<close> does to the arena.
\<close>

definition take_frame :: "PmmArena \<Rightarrow> paddr_t \<Rightarrow> PmmArena" where
  "take_frame a x =
     a\<lparr>free_list := remove1 (frame_for a x) (free_list a), free_count := free_count a - 1\<rparr>"

fun take_page :: "PmmArena list \<Rightarrow> paddr_t \<Rightarrow> PmmArena list" where
  "take_page [] x = []"
| "take_page (a # as) x =
     (if address_in_arena a x then take_frame a x # as else a # take_page as x)"

text \<open>
  The insertion of \<^verbatim>\<open>pmm_add_arena\<close> on a list of registration records: before the
  first record of a greater priority value.
\<close>

definition ins_info :: "pmm_arena_info_t \<Rightarrow> pmm_arena_info_t list \<Rightarrow> pmm_arena_info_t list" where
  "ins_info i L = takeWhile (\<lambda>x. info_priority x \<le> info_priority i) L @ i #
                  dropWhile (\<lambda>x. info_priority x \<le> info_priority i) L"

subsection \<open>Example states\<close>

text \<open>
  Concrete arenas for the examples: priority, flags, base, size, the address of the
  frame array and the free list. The free count is the length of the free list.
\<close>

definition test_arena ::
  "uint \<Rightarrow> uint \<Rightarrow> paddr_t \<Rightarrow> size_t \<Rightarrow> uintptr_t \<Rightarrow> list_node \<Rightarrow> PmmArena" where
  "test_arena prio fl b sz arr free =
     \<lparr>arena_info = \<lparr>info_name = [], info_flags = fl, info_priority = prio,
                      info_base = b, info_size = sz\<rparr>,
      page_array = arr, free_count = of_nat (length free), free_list = free\<rparr>"

text \<open>Arena A: priority 0, two pages at physical address 0, both free.\<close>

definition arena_A :: PmmArena where
  "arena_A = test_arena 0 0 0 0x2000 0x100000 [0x100000, 0x100020]"

text \<open>Arena B: priority 1, ten pages at physical address \<open>0x10000\<close>, all free.\<close>

definition arena_B :: PmmArena where
  "arena_B = test_arena 1 0 0x10000 0xA000 0x200000
     [0x200000, 0x200020, 0x200040, 0x200060, 0x200080,
      0x2000A0, 0x2000C0, 0x2000E0, 0x200100, 0x200120]"

definition state_AB :: pmm_state where
  "state_AB = \<lparr>arena_list = [arena_A, arena_B], boot_alloc_end = 0x300000\<rparr>"

text \<open>Arena K: priority 2, kernel-mapped, one free page at physical address \<open>0x20000\<close>.\<close>

definition arena_K :: PmmArena where
  "arena_K = test_arena 2 PMM_ARENA_FLAG_KMAP 0x20000 0x1000 0x280000 [0x280000]"

definition state_ABK :: pmm_state where
  "state_ABK = \<lparr>arena_list = [arena_A, arena_B, arena_K], boot_alloc_end = 0x300000\<rparr>"

text \<open>A boot sequence: regions of priority 5, 1 and 3, registered in this order.\<close>

definition info_p5 :: pmm_arena_info_t where
  "info_p5 = \<lparr>info_name = ''five'', info_flags = 0, info_priority = 5, info_base = 0, info_size = 0x1000\<rparr>"

definition info_p1 :: pmm_arena_info_t where
  "info_p1 = \<lparr>info_name = ''one'', info_flags = 0, info_priority = 1, info_base = 0x10000, info_size = 0x1000\<rparr>"

definition info_p3 :: pmm_arena_info_t where
  "info_p3 = \<lparr>info_name = ''three'', info_flags = 0, info_priority = 3, info_base = 0x20000, info_size = 0x2000\<rparr>"

definition boot_state :: pmm_state where
  "boot_state = \<lparr>arena_list = [], boot_alloc_end = 0x100000\<rparr>"

definition booted_state :: pmm_state where
  "booted_state =
     \<lparr>arena_list =
        [\<lparr>arena_info = info_p1, page_array = 0x100090, free_count = 1, free_list = [0x100090]\<rparr>,
         \<lparr>arena_info = info_p3, page_array = 0x1000E8, free_count = 2, free_list = [0x1000E8, 0x100108]\<rparr>,
         \<lparr>arena_info = info_p5, page_array = 0x100038, free_count = 1, free_list = [0x100038]\<rparr>],
      boot_alloc_end = 0x100128\<rparr>"

text \<open>
  Arena C: priority 0, two pages at physical address 0, the first of them allocated.
  Arena D: priority 1, two pages at physical address \<open>0x30000\<close>, both free.
\<close>

definition arena_C :: PmmArena where
  "arena_C = test_arena 0 0 0 0x2000 0x100000 [0x100020]"

definition arena_D :: PmmArena where
  "arena_D = test_arena 1 0 0x30000 0x2000 0x2C0000 [0x2C0000, 0x2C0020]"

definition state_CD :: pmm_state where
  "state_CD = \<lparr>arena_list = [arena_C, arena_D], boot_alloc_end = 0x300000\<rparr>"

text \<open>
  Arena T: ten pages at physical address 0, all free but the page of index 3 (address
  \<open>0x3000\<close>, frame \<open>0x100060\<close>).
\<close>

definition arena_T :: PmmArena where
  "arena_T = test_arena 0 0 0 0xA000 0x100000
     [0x100000, 0x100020, 0x100040, 0x100080, 0x1000A0, 0x1000C0, 0x1000E0, 0x100100, 0x100120]"

definition state_T :: pmm_state where
  "state_T = \<lparr>arena_list = [arena_T], boot_alloc_end = 0x300000\<rparr>"

text \<open>
  Two arenas that stand in the registry against the order of their addresses. Arena E:
  priority 0, the two pages at physical address \<open>0x2000\<close>, both free. Arena L:
  priority 1, the two pages at physical address 0, both free.
\<close>

definition arena_E :: PmmArena where
  "arena_E = test_arena 0 0 0x2000 0x2000 0x180000 [0x180000, 0x180020]"

definition arena_L :: PmmArena where
  "arena_L = test_arena 1 0 0 0x2000 0x100000 [0x100000, 0x100020]"

definition state_EL :: pmm_state where
  "state_EL = \<lparr>arena_list = [arena_E, arena_L], boot_alloc_end = 0x300000\<rparr>"

section \<open>Properties\<close>

declare pmm_alloc_range_inner.simps [simp del]

lemmas example_defs =
  state_AB_def state_ABK_def arena_A_def arena_B_def arena_K_def test_arena_def PAGE_SIZE_def PAGE_SIZE_SHIFT_def
  VM_PAGE_STRUCT_SIZE_def PMM_ALLOC_FLAG_KMAP_def PMM_ARENA_FLAG_KMAP_def

lemma upt_0_2: "[0..<2] = [0, 1]"
  by (simp add: numeral_2_eq_2)

subsection \<open>Translation of a frame that no arena owns\<close>

lemma vm_page_to_paddr_loop_none:
  "\<forall>a\<in>set as. \<not> page_belongs_to_arena a page \<Longrightarrow> vm_page_to_paddr_loop as page = - 1"
  by (induction as) auto

text \<open>
  Claim C9. For a frame handle that belongs to no registered arena,
  \<^verbatim>\<open>vm_page_to_paddr\<close> returns the sentinel \<^verbatim>\<open>(paddr_t)-1\<close>, the word of all ones.
\<close>

theorem vm_page_to_paddr_no_arena:
  "\<forall>a\<in>set (arena_list st). \<not> page_belongs_to_arena a page \<Longrightarrow> vm_page_to_paddr st page = - 1"
  by (simp add: vm_page_to_paddr_def vm_page_to_paddr_loop_none)

theorem vm_page_to_paddr_no_arena_witness:
  "\<not> page_belongs_to_arena arena_A 0x100040 \<and> \<not> page_belongs_to_arena arena_B 0x100040 \<and>
   vm_page_to_paddr state_AB 0x100040 = 0xFFFFFFFFFFFFFFFF"
  using vm_page_to_paddr_no_arena [of state_AB "0x100040"]
  by (simp add: page_belongs_to_arena_def example_defs)

subsection \<open>Requests for no pages\<close>

text \<open>
  Claim C8, as the program has it. With \<open>count = 0\<close>, \<^verbatim>\<open>pmm_alloc_range\<close> and
  \<^verbatim>\<open>pmm_alloc_contiguous\<close> return 0 and leave the state and the caller's list
  as they were, and so does \<^verbatim>\<open>pmm_alloc_pages\<close> when its list is not null.
\<close>

theorem alloc_zero_count:
  "pmm_alloc_pages 0 alloc_flags (Some l) st = Inr (0, Some l, st) \<and>
   pmm_alloc_range address 0 list st = (0, list, st) \<and>
   pmm_alloc_contiguous 0 alloc_flags alignment_log2 pa list st = (0, pa, list, st)"
  by (simp add: pmm_alloc_pages_def pmm_alloc_range_def pmm_alloc_contiguous_def)

theorem alloc_zero_count_witness:
  "pmm_alloc_pages 0 0 (Some []) state_AB = Inr (0, Some [], state_AB) \<and>
   pmm_alloc_range 0 0 None state_AB = (0, None, state_AB) \<and>
   pmm_alloc_contiguous 0 0 0 None None state_AB = (0, None, None, state_AB)"
  using alloc_zero_count [of 0 "[]" state_AB 0 None 0 None]
  by simp

text \<open>
  With a null list \<^verbatim>\<open>pmm_alloc_pages\<close> trips \<^verbatim>\<open>DEBUG_ASSERT(list)\<close>, which stands
  before the test of \<open>count\<close>: it does not return 0.
\<close>

theorem alloc_zero_count_null_list:
  "pmm_alloc_pages 0 0 None state_AB = Inl ASSERT_FAILED"
  by (simp add: pmm_alloc_pages_def)

subsection \<open>The loops of pmm\_alloc\_range\<close>

lemma inner_stop:
  "\<not> ((ucast allocated :: size_t) < count \<and> address_in_arena a address) \<Longrightarrow>
   pmm_alloc_range_inner count a allocated address list = (allocated, address, list, a)"
  by (subst pmm_alloc_range_inner.simps) auto

lemma inner_fail:
  "(ucast allocated :: size_t) < count \<Longrightarrow> address_in_arena a address \<Longrightarrow>
   AllocSpecific a address = (None, a') \<Longrightarrow>
   pmm_alloc_range_inner count a allocated address list = (allocated, address, list, a')"
  by (subst pmm_alloc_range_inner.simps) simp

lemma inner_step:
  "(ucast allocated :: size_t) < count \<Longrightarrow> address_in_arena a address \<Longrightarrow>
   AllocSpecific a address = (Some page, a') \<Longrightarrow>
   pmm_alloc_range_inner count a allocated address list =
   pmm_alloc_range_inner count a' (allocated + 1) (address + PAGE_SIZE)
     (case list of None \<Rightarrow> None | Some l \<Rightarrow> Some (l @ [page]))"
  by (subst pmm_alloc_range_inner.simps) simp

lemma inner_None:
  "pmm_alloc_range_inner count a allocated address list = (n, ad', lo, a') \<Longrightarrow>
   pmm_alloc_range_inner count a allocated address None = (n, ad', None, a')"
proof (induction count a allocated address list rule: pmm_alloc_range_inner.induct)
  case (1 count a allocated address list)
  show ?case
  proof (cases "(ucast allocated :: size_t) < count \<and> address_in_arena a address")
    case False
    with "1.prems" show ?thesis
      by (simp add: inner_stop)
  next
    case True
    obtain r a1 where as: "AllocSpecific a address = (r, a1)"
      by (cases "AllocSpecific a address")
    show ?thesis
    proof (cases r)
      case None
      with True as "1.prems" show ?thesis
        by (simp add: inner_fail)
    next
      case (Some page)
      with True as "1.prems"
      have "pmm_alloc_range_inner count a1 (allocated + 1) (address + PAGE_SIZE)
              (case list of None \<Rightarrow> None | Some l \<Rightarrow> Some (l @ [page])) = (n, ad', lo, a')"
        by (simp add: inner_step)
      from "1.IH" [OF True as [symmetric] Some this] True as Some
      show ?thesis by (simp add: inner_step)
    qed
  qed
qed

lemma loop_None:
  "pmm_alloc_range_loop count allocated address list as = (n, ad', lo, as') \<Longrightarrow>
   pmm_alloc_range_loop count allocated address None as = (n, ad', None, as')"
proof (induction as arbitrary: allocated address list n ad' lo as')
  case Nil
  then show ?case by simp
next
  case (Cons a as)
  obtain n1 ad1 l1 a1
    where i: "pmm_alloc_range_inner count a allocated address list = (n1, ad1, l1, a1)"
    by (metis prod_cases4)
  note iN = inner_None [OF i]
  show ?case
  proof (cases "(ucast n1 :: size_t) = count")
    case True
    with Cons.prems i iN show ?thesis by simp
  next
    case False
    obtain n2 ad2 l2 as2
      where r: "pmm_alloc_range_loop count n1 ad1 l1 as = (n2, ad2, l2, as2)"
      by (metis prod_cases4)
    from Cons.IH [OF r] Cons.prems i iN False r show ?thesis by simp
  qed
qed

subsection \<open>Single pages\<close>

lemma alloc_page_loop_none:
  "\<forall>a\<in>set as. skip_arena fl a \<or> free_list a = [] \<Longrightarrow>
   pmm_alloc_page_loop fl pa as = (None, pa, as)"
  by (induction as) (auto simp: AllocPage_def)

lemma alloc_page_loop_first:
  "\<forall>b\<in>set pre. skip_arena fl b \<or> free_list b = [] \<Longrightarrow> \<not> skip_arena fl a \<Longrightarrow>
   free_list a = page # rest \<Longrightarrow>
   pmm_alloc_page_loop fl pa (pre @ a # post) =
     (Some page, (case pa of None \<Rightarrow> None | Some x \<Rightarrow> Some (page_address_from_arena a page)),
      pre @ a\<lparr>free_list := rest, free_count := free_count a - 1\<rparr> # post)"
  by (induction pre) (auto simp: AllocPage_def)

lemma alloc_page_loop_none_iff:
  "fst (pmm_alloc_page_loop fl pa as) = None \<longleftrightarrow>
   (\<forall>a\<in>set as. skip_arena fl a \<or> free_list a = [])"
proof
  assume "\<forall>a\<in>set as. skip_arena fl a \<or> free_list a = []"
  then show "fst (pmm_alloc_page_loop fl pa as) = None"
    by (simp add: alloc_page_loop_none)
next
  assume n: "fst (pmm_alloc_page_loop fl pa as) = None"
  show "\<forall>a\<in>set as. skip_arena fl a \<or> free_list a = []"
  proof (rule ccontr)
    assume "\<not> (\<forall>a\<in>set as. skip_arena fl a \<or> free_list a = [])"
    then have "\<exists>a\<in>set as. \<not> (skip_arena fl a \<or> free_list a = [])"
      by blast
    then obtain pre a post
      where s: "as = pre @ a # post" "\<not> (skip_arena fl a \<or> free_list a = [])"
        "\<forall>b\<in>set pre. skip_arena fl b \<or> free_list b = []"
      by (auto dest!: split_list_first_prop)
    then obtain page rest where "free_list a = page # rest"
      by (cases "free_list a") auto
    with s alloc_page_loop_first [of pre fl a page rest pa post] n show False
      by simp
  qed
qed

text \<open>
  Claim C7. \<^verbatim>\<open>pmm_alloc_page\<close> walks the arena list in order and skips the arenas
  without the KMAP flag when the caller passes the KMAP allocation flag. It returns null
  exactly when every arena it does not skip has an empty free list. Otherwise the first
  such arena with a free frame gives the head of its free list, with the frame's address,
  and no other arena changes.
\<close>

theorem pmm_alloc_page_first_arena:
  "(fst (pmm_alloc_page alloc_flags pa st) = None \<longleftrightarrow>
      (\<forall>a\<in>set (arena_list st). \<not> skip_arena alloc_flags a \<longrightarrow> free_list a = [])) \<and>
   (arena_list st = pre @ a # post \<and>
    (\<forall>b\<in>set pre. skip_arena alloc_flags b \<or> free_list b = []) \<and>
    \<not> skip_arena alloc_flags a \<and> free_list a = page # rest \<longrightarrow>
    pmm_alloc_page alloc_flags pa st =
      (Some page, (case pa of None \<Rightarrow> None | Some x \<Rightarrow> Some (page_address_from_arena a page)),
       st\<lparr>arena_list := pre @ a\<lparr>free_list := rest, free_count := free_count a - 1\<rparr> # post\<rparr>))"
proof -
  have "fst (pmm_alloc_page alloc_flags pa st) =
        fst (pmm_alloc_page_loop alloc_flags pa (arena_list st))"
    by (simp add: pmm_alloc_page_def split: prod.splits)
  then have 1: "fst (pmm_alloc_page alloc_flags pa st) = None \<longleftrightarrow>
      (\<forall>a\<in>set (arena_list st). \<not> skip_arena alloc_flags a \<longrightarrow> free_list a = [])"
    using alloc_page_loop_none_iff [of alloc_flags pa "arena_list st"] by auto
  have 2: "arena_list st = pre @ a # post \<and>
    (\<forall>b\<in>set pre. skip_arena alloc_flags b \<or> free_list b = []) \<and>
    \<not> skip_arena alloc_flags a \<and> free_list a = page # rest \<longrightarrow>
    pmm_alloc_page alloc_flags pa st =
      (Some page, (case pa of None \<Rightarrow> None | Some x \<Rightarrow> Some (page_address_from_arena a page)),
       st\<lparr>arena_list := pre @ a\<lparr>free_list := rest, free_count := free_count a - 1\<rparr> # post\<rparr>)"
    by (simp add: pmm_alloc_page_def alloc_page_loop_first)
  from 1 2 show ?thesis by blast
qed

theorem pmm_alloc_page_first_arena_witness:
  "skip_arena PMM_ALLOC_FLAG_KMAP arena_A \<and> skip_arena PMM_ALLOC_FLAG_KMAP arena_B \<and>
   \<not> skip_arena PMM_ALLOC_FLAG_KMAP arena_K \<and>
   pmm_alloc_page PMM_ALLOC_FLAG_KMAP (Some 0) state_ABK =
     (Some 0x280000, Some 0x20000,
      state_ABK\<lparr>arena_list := [arena_A, arena_B, arena_K\<lparr>free_list := [], free_count := 0\<rparr>]\<rparr>) \<and>
   fst (pmm_alloc_page PMM_ALLOC_FLAG_KMAP (Some 0) state_AB) = None"
  using pmm_alloc_page_first_arena [of PMM_ALLOC_FLAG_KMAP "Some 0" state_ABK
      "[arena_A, arena_B]" arena_K "[]" "0x280000" "[]"]
    pmm_alloc_page_first_arena [of PMM_ALLOC_FLAG_KMAP "Some 0" state_AB]
  by (simp add: skip_arena_def flags_def page_address_from_arena_def example_defs)

subsection \<open>Batches of pages\<close>

lemma AllocPages_zero:
  "free_list a = [] \<Longrightarrow> AllocPages a count l = (0, l, a)"
  by (simp add: AllocPages_def)

lemma AllocPages_pos:
  assumes "count \<noteq> 0" "free_list a \<noteq> []"
  shows "fst (AllocPages a count l) > 0"
proof -
  let ?n = "min (unat count) (length (free_list a))"
  have "?n > 0" using assms by (simp add: unat_gt_0)
  moreover have "?n \<le> unat count" by simp
  ultimately have "unat (of_nat ?n :: size_t) \<noteq> 0"
    by (simp only: le_unat_uoi [of ?n count])
  then have "(of_nat ?n :: size_t) \<noteq> 0"
    by (simp add: unat_eq_0)
  then show ?thesis
    by (simp add: AllocPages_def Let_def word_gt_0)
qed

lemma alloc_pages_loop_none:
  "\<forall>a\<in>set as. skip_arena fl a \<or> free_list a = [] \<Longrightarrow>
   pmm_alloc_pages_loop count fl l as = (0, l, as)"
  by (induction as) (auto simp: AllocPages_zero)

lemma alloc_pages_loop_first:
  assumes "count \<noteq> 0"
  shows "\<forall>b\<in>set pre. skip_arena fl b \<or> free_list b = [] \<Longrightarrow> \<not> skip_arena fl a \<Longrightarrow>
   free_list a \<noteq> [] \<Longrightarrow>
   pmm_alloc_pages_loop count fl l (pre @ a # post) =
     (case AllocPages a count l of (allocated, l', a') \<Rightarrow> (allocated, l', pre @ a' # post))"
proof (induction pre)
  case Nil
  with AllocPages_pos [OF assms, of a l] show ?case
    by (auto split: prod.splits)
next
  case (Cons b pre)
  then show ?case by (auto simp: AllocPages_zero split: prod.splits)
qed

text \<open>
  Claim C2. For \<open>count > 0\<close> and a list that is not null, \<^verbatim>\<open>pmm_alloc_pages\<close> stops
  at the first arena that it does not skip and that has a free frame. It returns the
  \<open>n\<close> frames that this arena's \<^verbatim>\<open>AllocPages\<close> popped, where \<open>n\<close> is the smaller of
  \<open>count\<close> and the length of the arena's free list, and the count \<open>n\<close>. Only that arena
  changes: the arenas after it keep their frames, shortfall or not.
\<close>

theorem pmm_alloc_pages_first_arena:
  assumes "count \<noteq> 0" and "arena_list st = pre @ a # post"
    and "\<forall>b\<in>set pre. skip_arena alloc_flags b \<or> free_list b = []"
    and "\<not> skip_arena alloc_flags a" and "free_list a \<noteq> []"
    and "n = min (unat count) (length (free_list a))"
  shows "pmm_alloc_pages count alloc_flags (Some l) st =
           Inr (of_nat n, Some (l @ take n (free_list a)),
                st\<lparr>arena_list := pre @ a\<lparr>free_list := drop n (free_list a),
                                             free_count := free_count a - of_nat n\<rparr> # post\<rparr>)
         \<and> 0 < n \<and> n \<le> unat count"
proof -
  have "0 < n" using assms by (simp add: unat_gt_0)
  moreover have "n \<le> unat count" using assms by simp
  moreover have "pmm_alloc_pages count alloc_flags (Some l) st =
           Inr (of_nat n, Some (l @ take n (free_list a)),
                st\<lparr>arena_list := pre @ a\<lparr>free_list := drop n (free_list a),
                                             free_count := free_count a - of_nat n\<rparr> # post\<rparr>)"
    using assms alloc_pages_loop_first [of count pre alloc_flags a l post]
    by (simp add: pmm_alloc_pages_def AllocPages_def Let_def)
  ultimately show ?thesis by simp
qed

text \<open>
  The example of the claim: arena A (priority 0) has 2 free frames and arena B
  (priority 1) has 10; a request for 5 pages returns the 2 frames of A and the count 2,
  and B is untouched.
\<close>

theorem pmm_alloc_pages_first_arena_witness:
  "(5 :: size_t) \<noteq> 0 \<and> arena_list state_AB = [] @ arena_A # [arena_B] \<and>
   \<not> skip_arena 0 arena_A \<and> free_list arena_A \<noteq> [] \<and>
   (2 :: nat) = min (unat (5 :: size_t)) (length (free_list arena_A)) \<and>
   pmm_alloc_pages 5 0 (Some []) state_AB =
     Inr (2, Some [0x100000, 0x100020],
          state_AB\<lparr>arena_list := [arena_A\<lparr>free_list := [], free_count := 0\<rparr>, arena_B]\<rparr>)"
proof -
  have h1: "(5 :: size_t) \<noteq> 0"
    by simp
  have h2: "arena_list state_AB = [] @ arena_A # [arena_B]"
    by (simp add: state_AB_def)
  have h3: "\<forall>b\<in>set []. skip_arena 0 b \<or> free_list b = []"
    by simp
  have h4: "\<not> skip_arena 0 arena_A"
    by (simp add: skip_arena_def)
  have h5: "free_list arena_A \<noteq> []"
    by (simp add: arena_A_def test_arena_def)
  have h6: "(2 :: nat) = min (unat (5 :: size_t)) (length (free_list arena_A))"
    by (simp add: arena_A_def test_arena_def)
  have "pmm_alloc_pages 5 0 (Some []) state_AB =
     Inr (2, Some [0x100000, 0x100020],
          state_AB\<lparr>arena_list := [arena_A\<lparr>free_list := [], free_count := 0\<rparr>, arena_B]\<rparr>)"
    using pmm_alloc_pages_first_arena [OF h1 h2 h3 h4 h5 h6, of "[]"]
    by (simp add: arena_A_def test_arena_def)
  with h1 h2 h4 h5 h6 show ?thesis
    by blast
qed

subsection \<open>Registration order\<close>

lemma walk_eq:
  "pmm_add_arena_walk arena as =
     takeWhile (\<lambda>a. priority a \<le> priority arena) as @ arena #
     dropWhile (\<lambda>a. priority a \<le> priority arena) as"
  by (induction as) (auto simp: not_less)

lemma BootAllocArray_info: "arena_info (fst (BootAllocArray a st)) = arena_info a"
  by (simp add: BootAllocArray_def Let_def split: prod.splits)

lemma pmm_add_arena_list:
  assumes "pmm_add_arena info st = Inr (s, st')"
  shows "\<exists>arena. arena_info arena = info \<and>
     arena_list st' = takeWhile (\<lambda>a. priority a \<le> info_priority info) (arena_list st) @ arena #
                      dropWhile (\<lambda>a. priority a \<le> info_priority info) (arena_list st)"
proof -
  let ?st1 = "snd (boot_alloc_mem SIZEOF_PmmArena st)"
  let ?r = "BootAllocArray (PmmArena_new info) ?st1"
  have al: "arena_list (snd ?r) = arena_list st"
    by (simp add: BootAllocArray_def boot_alloc_mem_def Let_def)
  have i: "arena_info (fst ?r) = info"
    by (simp add: BootAllocArray_info PmmArena_new_def)
  then have p: "priority (fst ?r) = info_priority info"
    by (simp add: priority_def)
  from assms have "arena_list st' = pmm_add_arena_walk (fst ?r) (arena_list (snd ?r))"
    by (auto simp: pmm_add_arena_def Let_def split: if_splits prod.splits)
  with al p i show ?thesis
    by (auto simp: walk_eq)
qed

lemma pmm_add_arena_infos:
  assumes "pmm_add_arena info st = Inr (s, st')"
  shows "map arena_info (arena_list st') = ins_info info (map arena_info (arena_list st))"
proof -
  from pmm_add_arena_list[OF assms] obtain arena where a: "arena_info arena = info"
    "arena_list st' = takeWhile (\<lambda>a. priority a \<le> info_priority info) (arena_list st) @ arena #
                      dropWhile (\<lambda>a. priority a \<le> info_priority info) (arena_list st)"
    by blast
  have "(\<lambda>a. priority a \<le> info_priority info) = (\<lambda>x. info_priority x \<le> info_priority info) \<circ> arena_info"
    by (auto simp: priority_def)
  with a show ?thesis
    by (simp add: ins_info_def takeWhile_map dropWhile_map)
qed

lemma pmm_add_arenas_infos:
  "pmm_add_arenas infos st = Inr st' \<Longrightarrow>
   map arena_info (arena_list st') = foldl (\<lambda>L i. ins_info i L) (map arena_info (arena_list st)) infos"
proof (induction infos arbitrary: st)
  case Nil
  then show ?case by simp
next
  case (Cons i infos)
  then obtain s st1 where 1: "pmm_add_arena i st = Inr (s, st1)" and 2: "pmm_add_arenas infos st1 = Inr st'"
    by (auto split: sum.splits)
  from Cons.IH[OF 2] pmm_add_arena_infos[OF 1] show ?case by simp
qed

lemma dropWhile_greater:
  "sorted (map info_priority L) \<Longrightarrow> x \<in> set (dropWhile (\<lambda>x. info_priority x \<le> c) L) \<Longrightarrow> c < info_priority x"
  by (induction L) (auto split: if_splits)

lemma sorted_ins_mid:
  fixes c :: "'a::linorder"
  assumes "sorted (xs @ ys)" and "\<And>x. x \<in> set xs \<Longrightarrow> x \<le> c" and "\<And>y. y \<in> set ys \<Longrightarrow> c < y"
  shows "sorted (xs @ c # ys)"
proof -
  from assms(1) have "sorted xs" "sorted ys" "\<forall>x\<in>set xs. \<forall>y\<in>set ys. x \<le> y"
    by (simp_all add: sorted_append)
  moreover have "\<forall>y\<in>set ys. c \<le> y" using assms(3) by (simp add: less_imp_le)
  moreover have "\<forall>x\<in>set xs. x \<le> c" using assms(2) by simp
  ultimately show ?thesis
    by (simp add: sorted_append)
qed

lemma ins_info_sorted:
  assumes "sorted (map info_priority L)"
  shows "sorted (map info_priority (ins_info i L))"
proof -
  let ?P = "\<lambda>x. info_priority x \<le> info_priority i"
  let ?T = "takeWhile ?P L"
  let ?D = "dropWhile ?P L"
  have 1: "sorted (map info_priority ?T @ map info_priority ?D)"
    using assms by (simp only: map_append [symmetric] takeWhile_dropWhile_id)
  have 2: "\<And>x. x \<in> set (map info_priority ?T) \<Longrightarrow> x \<le> info_priority i"
    by (auto dest: set_takeWhileD)
  have 3: "\<And>y. y \<in> set (map info_priority ?D) \<Longrightarrow> info_priority i < y"
    using dropWhile_greater [OF assms] by auto
  have "sorted (map info_priority ?T @ info_priority i # map info_priority ?D)"
    using 1 2 3 by (rule sorted_ins_mid)
  then show ?thesis
    by (simp add: ins_info_def)
qed

lemma ins_info_filter:
  assumes "sorted (map info_priority L)"
  shows "filter (\<lambda>x. k = info_priority x) (ins_info i L) =
         filter (\<lambda>x. k = info_priority x) L @ (if k = info_priority i then [i] else [])"
proof -
  let ?P = "\<lambda>x. info_priority x \<le> info_priority i"
  let ?Q = "\<lambda>x. k = info_priority x"
  have L: "filter ?Q L = filter ?Q (takeWhile ?P L) @ filter ?Q (dropWhile ?P L)"
    by (metis filter_append takeWhile_dropWhile_id)
  have d: "\<forall>x\<in>set (dropWhile ?P L). info_priority i < info_priority x"
    using dropWhile_greater[OF assms] by blast
  show ?thesis
  proof (cases "k = info_priority i")
    case True
    with d have "filter ?Q (dropWhile ?P L) = []"
      by (auto simp: filter_empty_conv)
    with L True show ?thesis by (simp add: ins_info_def)
  next
    case False
    with L show ?thesis by (simp add: ins_info_def)
  qed
qed

lemma foldl_ins_sorted:
  "sorted (map info_priority L) \<Longrightarrow> sorted (map info_priority (foldl (\<lambda>L i. ins_info i L) L infos))"
  by (induction infos arbitrary: L) (auto simp: ins_info_sorted)

lemma foldl_ins_filter:
  "sorted (map info_priority L) \<Longrightarrow>
   filter (\<lambda>x. k = info_priority x) (foldl (\<lambda>L i. ins_info i L) L infos) =
   filter (\<lambda>x. k = info_priority x) L @ filter (\<lambda>x. k = info_priority x) infos"
  by (induction infos arbitrary: L) (auto simp: ins_info_sorted ins_info_filter)

text \<open>
  Claim C5. A registration that passes the assertions of \<^verbatim>\<open>pmm_add_arena\<close> puts
  the new arena right before the first registered arena of a strictly greater priority
  value, at the end when there is none. So after any sequence of registrations from the
  empty list the arenas stand in ascending priority order, and the arenas of one
  priority stand in the order of their registration. A registration halts exactly when
  the base or the size is not page aligned or the size is 0.
\<close>

theorem pmm_add_arena_priority_order:
  "(pmm_add_arena info st = Inr (s, st') \<longrightarrow>
      (\<exists>arena. arena_info arena = info \<and>
         arena_list st' = takeWhile (\<lambda>a. priority a \<le> info_priority info) (arena_list st) @ arena #
                          dropWhile (\<lambda>a. priority a \<le> info_priority info) (arena_list st))) \<and>
   (arena_list st0 = [] \<and> pmm_add_arenas infos st0 = Inr st'' \<longrightarrow>
      sorted (map priority (arena_list st'')) \<and>
      (\<forall>k. map arena_info (filter (\<lambda>a. priority a = k) (arena_list st'')) =
             filter (\<lambda>i. info_priority i = k) infos)) \<and>
   (pmm_add_arena info st = Inl ASSERT_FAILED \<longleftrightarrow>
      \<not> (IS_PAGE_ALIGNED (info_base info) \<and> IS_PAGE_ALIGNED (info_size info) \<and>
         info_size info > 0))"
proof -
  have 3: "pmm_add_arena info st = Inl ASSERT_FAILED \<longleftrightarrow>
      \<not> (IS_PAGE_ALIGNED (info_base info) \<and> IS_PAGE_ALIGNED (info_size info) \<and>
         info_size info > 0)"
    by (auto simp: pmm_add_arena_def Let_def split: prod.splits)
  have 2: "sorted (map priority (arena_list st'')) \<and>
      (\<forall>k. map arena_info (filter (\<lambda>a. priority a = k) (arena_list st'')) =
             filter (\<lambda>i. info_priority i = k) infos)"
    if e: "arena_list st0 = []" and r: "pmm_add_arenas infos st0 = Inr st''"
  proof -
    from pmm_add_arenas_infos [OF r] e
    have m: "map arena_info (arena_list st'') = foldl (\<lambda>L i. ins_info i L) [] infos"
      by simp
    have pm: "map priority (arena_list st'') = map info_priority (map arena_info (arena_list st''))"
      by (simp add: priority_def)
    have "sorted (map info_priority (foldl (\<lambda>L i. ins_info i L) [] infos))"
      by (rule foldl_ins_sorted) simp
    with m pm have srt: "sorted (map priority (arena_list st''))"
      by simp
    have "map arena_info (filter (\<lambda>a. priority a = k) (arena_list st'')) =
             filter (\<lambda>i. info_priority i = k) infos" for k
    proof -
      have "map arena_info (filter (\<lambda>a. priority a = k) (arena_list st'')) =
            filter (\<lambda>i. k = info_priority i) (map arena_info (arena_list st''))"
        by (simp add: filter_map priority_def comp_def eq_commute)
      also have "\<dots> = filter (\<lambda>i. k = info_priority i) infos"
        using foldl_ins_filter [of "[]" k infos] m by simp
      finally show ?thesis by (simp add: eq_commute)
    qed
    with srt show ?thesis by blast
  qed
  from pmm_add_arena_list [of info st s st'] 2 3 show ?thesis
    by blast
qed

lemma boot_example:
  "pmm_add_arenas [info_p5, info_p1, info_p3] boot_state = Inr booted_state"
  by (simp add: pmm_add_arena_def IS_PAGE_ALIGNED_def BootAllocArray_def boot_alloc_mem_def PmmArena_new_def
     SIZEOF_PmmArena_def priority_def size_arena_def get_page_def booted_state_def
     info_p5_def info_p1_def info_p3_def boot_state_def PAGE_SIZE_def VM_PAGE_STRUCT_SIZE_def Let_def NO_ERROR_def
     upt_0_2)

text \<open>
  The example of the claim: regions registered with priorities 5, 1 and 3 are iterated in
  the order 1, 3, 5.
\<close>

theorem pmm_add_arena_priority_order_witness:
  "arena_list boot_state = [] \<and>
   pmm_add_arenas [info_p5, info_p1, info_p3] boot_state = Inr booted_state \<and>
   map priority (arena_list booted_state) = [1, 3, 5] \<and>
   sorted (map priority (arena_list booted_state))"
proof -
  have e: "arena_list boot_state = []" by (simp add: boot_state_def)
  have p: "map priority (arena_list booted_state) = [1, 3, 5]"
    by (simp add: booted_state_def priority_def info_p5_def info_p1_def info_p3_def)
  from pmm_add_arena_priority_order [of undefined undefined undefined undefined boot_state "[info_p5, info_p1, info_p3]" booted_state]
    e boot_example
  have "sorted (map priority (arena_list booted_state))"
    by blast
  with e boot_example p show ?thesis by simp
qed

subsection \<open>Contiguous runs\<close>

lemma AllocContiguous_zero: "fst (AllocContiguous a 0 al pa list) = 0"
  by (simp add: AllocContiguous_def Let_def split: option.splits)

lemma alloc_contiguous_loop_zero:
  "fst (pmm_alloc_contiguous_loop 0 fl al pa list as) = 0"
proof (induction as arbitrary: pa list)
  case Nil
  then show ?case by simp
next
  case (Cons a as)
  show ?case
  proof (cases "skip_arena fl a")
    case True
    with Cons.IH [of pa list] show ?thesis
      by (simp add: case_prod_beta)
  next
    case False
    obtain c pa' list' a' where r: "AllocContiguous a 0 al pa list = (c, pa', list', a')"
      by (metis prod_cases4)
    with AllocContiguous_zero [of a al pa list] have c: "c = 0" by simp
    with False r Cons.IH [of pa' list'] show ?thesis
      by (simp add: case_prod_beta)
  qed
qed

lemma alloc_contiguous_loop_first_failure:
  assumes "\<forall>b\<in>set pre. skip_arena fl b" "\<not> skip_arena fl a"
    "find_run a (unat count) (unat al) = None"
  shows "fst (pmm_alloc_contiguous_loop count fl al pa list (pre @ a # post)) = 0"
  using assms(1)
proof (induction pre)
  case Nil
  from assms(3) have "AllocContiguous a count al pa list = (0, pa, list, a)"
    by (simp add: AllocContiguous_def)
  with assms(2) alloc_contiguous_loop_zero [of fl al pa list post] show ?case
    by (simp add: case_prod_beta)
next
  case (Cons b pre)
  then show ?case by (simp add: case_prod_beta)
qed

text \<open>
  Claim C1 says that \<^verbatim>\<open>pmm_alloc_contiguous\<close> tries the run allocation with the
  requested count on each arena it does not skip, and succeeds when one of them has a
  suitable run. The program assigns the result of \<^verbatim>\<open>AllocContiguous\<close> to
  \<^verbatim>\<open>count\<close>: once the first arena that is not skipped has no run, every later
  arena is asked for a run of zero pages, and the call returns 0 whatever those arenas
  hold.
\<close>

theorem pmm_alloc_contiguous_first_failure:
  assumes "count \<noteq> 0" and "arena_list st = pre @ a # post"
    and "\<forall>b\<in>set pre. skip_arena alloc_flags b" and "\<not> skip_arena alloc_flags a"
    and "find_run a (unat count)
           (unat (if alignment_log2 < PAGE_SIZE_SHIFT then PAGE_SIZE_SHIFT else alignment_log2)) = None"
  shows "fst (pmm_alloc_contiguous count alloc_flags alignment_log2 pa list st) = 0"
  using assms alloc_contiguous_loop_first_failure [of pre alloc_flags a count
      "if alignment_log2 < PAGE_SIZE_SHIFT then PAGE_SIZE_SHIFT else alignment_log2" pa list post]
  by (simp add: pmm_alloc_contiguous_def Let_def case_prod_beta)

lemma find_run_C: "find_run arena_C 2 12 = None"
  by (simp add: find_run_def arena_C_def test_arena_def size_arena_def base_def get_page_def
      PAGE_SIZE_def VM_PAGE_STRUCT_SIZE_def upt_0_2)

lemma find_run_D: "find_run arena_D 2 12 = Some 0"
  by (simp add: find_run_def arena_D_def test_arena_def size_arena_def base_def get_page_def
      PAGE_SIZE_def VM_PAGE_STRUCT_SIZE_def upt_0_2)

lemma find_run_D0: "find_run arena_D 0 12 = Some 0"
  by (simp add: find_run_def arena_D_def test_arena_def size_arena_def base_def get_page_def
      PAGE_SIZE_def VM_PAGE_STRUCT_SIZE_def upt_0_2)

lemma AllocContiguous_D:
  "AllocContiguous arena_D 2 PAGE_SIZE_SHIFT (Some 0) (Some []) =
     (2, Some 0x30000, Some [0x2C0000, 0x2C0020], arena_D\<lparr>free_list := [], free_count := 0\<rparr>)"
  by (simp add: AllocContiguous_def PAGE_SIZE_SHIFT_def find_run_D upt_0_2)
     (simp add: arena_D_def test_arena_def base_def get_page_def PAGE_SIZE_def VM_PAGE_STRUCT_SIZE_def)

lemma alloc_contiguous_CD:
  "pmm_alloc_contiguous 2 0 0 (Some 0) (Some []) state_CD = (0, Some 0x30000, Some [], state_CD)"
  by (simp add: pmm_alloc_contiguous_def state_CD_def skip_arena_def AllocContiguous_def
      PAGE_SIZE_SHIFT_def find_run_C find_run_D0)
     (simp add: arena_D_def test_arena_def base_def get_page_def PAGE_SIZE_def)


text \<open>
  Arena C has no run of two free pages and arena D has one, at its base. A request for
  two contiguous pages returns 0 and takes nothing from D.
\<close>

theorem pmm_alloc_contiguous_first_failure_witness:
  "(2 :: size_t) \<noteq> 0 \<and> arena_list state_CD = [] @ arena_C # [arena_D] \<and>
   \<not> skip_arena 0 arena_C \<and> \<not> skip_arena 0 arena_D \<and>
   find_run arena_C (unat (2 :: size_t)) (unat PAGE_SIZE_SHIFT) = None \<and>
   AllocContiguous arena_D 2 PAGE_SIZE_SHIFT (Some 0) (Some []) =
     (2, Some 0x30000, Some [0x2C0000, 0x2C0020], arena_D\<lparr>free_list := [], free_count := 0\<rparr>) \<and>
   fst (pmm_alloc_contiguous 2 0 0 (Some 0) (Some []) state_CD) = 0 \<and>
   pmm_alloc_contiguous 2 0 0 (Some 0) (Some []) state_CD = (0, Some 0x30000, Some [], state_CD)"
proof -
  have h1: "(2 :: size_t) \<noteq> 0"
    by simp
  have h2: "arena_list state_CD = [] @ arena_C # [arena_D]"
    by (simp add: state_CD_def)
  have h3: "\<forall>b\<in>set []. skip_arena 0 b"
    by simp
  have h4: "\<not> skip_arena 0 arena_C" and h4': "\<not> skip_arena 0 arena_D"
    by (simp_all add: skip_arena_def)
  have h5: "find_run arena_C (unat (2 :: size_t))
              (unat (if (0 :: uint8_t) < PAGE_SIZE_SHIFT then PAGE_SIZE_SHIFT else 0)) = None"
    by (simp add: PAGE_SIZE_SHIFT_def find_run_C)
  have h5': "find_run arena_C (unat (2 :: size_t)) (unat PAGE_SIZE_SHIFT) = None"
    by (simp add: PAGE_SIZE_SHIFT_def find_run_C)
  have "fst (pmm_alloc_contiguous 2 0 0 (Some 0) (Some []) state_CD) = 0"
    by (rule pmm_alloc_contiguous_first_failure [OF h1 h2 h3 h4 h5])
  with h1 h2 h4 h4' h5' AllocContiguous_D alloc_contiguous_CD show ?thesis
    by blast
qed

subsection \<open>Freeing\<close>





lemma belongs_update [simp]:
  "page_belongs_to_arena (a\<lparr>free_list := l, free_count := c\<rparr>) q = page_belongs_to_arena a q"
  by (simp add: page_belongs_to_arena_def)












subsection \<open>Translation there and back\<close>



lemma unat_div_page: "unat ((y :: 64 word) div 4096) = unat y div 4096"
  by (simp add: unat_div)

lemma unat_index_times_struct: "unat (((y :: 64 word) div 4096) * 32) = (unat y div 4096) * 32"
proof -
  have "unat y < 2 ^ 64" using unsigned_less [of y, where ?'a = nat] by simp
  then have "(unat y div 4096) * 32 < 2 ^ 64" by simp
  then show ?thesis
    by (simp add: unat_word_ariths unat_div)
qed

lemma index_times_struct_div: "(((y :: 64 word) div 4096) * 32) div 32 = y div 4096"
proof -
  have "unat ((((y :: 64 word) div 4096) * 32) div 32) = unat (y div 4096)"
    by (simp add: unat_div unat_index_times_struct unat_div_page)
  then show ?thesis by (simp only: word_unat_eq_iff)
qed























subsection \<open>Ranges of pages\<close>

lemma AllocSpecific_Some:
  assumes "AllocSpecific a ad = (Some page, a1)"
  shows "page = frame_for a ad \<and> page \<in> set (free_list a) \<and> address_in_arena a ad \<and>
         arena_info a1 = arena_info a \<and> page_array a1 = page_array a \<and>
         set (free_list a1) \<subseteq> set (free_list a)"
  using assms
  by (auto simp: AllocSpecific_def frame_for_def Let_def split: if_splits dest: set_mp [OF set_remove1_subset])

lemma AllocSpecific_None:
  assumes "AllocSpecific a ad = (None, a1)"
  shows "a1 = a"
  using assms
  by (auto simp: AllocSpecific_def Let_def split: if_splits)

lemma taken_mono:
  "taken a1 ad fs \<Longrightarrow> arena_info a1 = arena_info a \<Longrightarrow> page_array a1 = page_array a \<Longrightarrow>
   set (free_list a1) \<subseteq> set (free_list a) \<Longrightarrow> taken a ad fs"
  by (induction fs arbitrary: ad)
     (auto simp: address_in_arena_def frame_for_def get_page_def base_def)

lemma unat_ucast_uint: "unat (ucast (al :: uint) :: size_t) = unat al"
proof -
  have "unat al < 2 ^ 32"
    using unsigned_less [of al, where ?'a = nat] by simp
  also have "(2 :: nat) ^ 32 < 2 ^ 64"
    by simp
  finally show ?thesis
    by (simp add: unsigned_ucast_eq take_bit_nat_eq_self)
qed

lemma uint_succ:
  assumes "unat count < 2 ^ 32" "(ucast (al :: uint) :: size_t) < count"
  shows "unat (al + 1) = unat al + 1" "unat (al + 1) \<le> unat count"
proof -
  from assms(2) have l: "unat al < unat count"
    by (simp add: word_less_nat_alt unat_ucast_uint)
  with assms(1) have "unat al + unat (1 :: uint) < 2 ^ LENGTH(32)"
    by simp
  then have "unat (al + 1) = unat al + unat (1 :: uint)"
    by (simp only: unat_add_lem)
  then show "unat (al + 1) = unat al + 1" by simp
  with l show "unat (al + 1) \<le> unat count" by simp
qed

lemma inner_props:
  "unat count < 2 ^ 32 \<Longrightarrow>
    pmm_alloc_range_inner count a al ad list = (al', ad', list', a') \<Longrightarrow>
    unat al \<le> unat count \<Longrightarrow>
    \<exists>fs. unat al' = unat al + length fs \<and> unat al' \<le> unat count \<and>
         ad' = ad + of_nat (length fs) * PAGE_SIZE \<and>
         list' = (case list of None \<Rightarrow> None | Some l \<Rightarrow> Some (l @ fs)) \<and>
         taken a ad fs \<and>
         arena_info a' = arena_info a \<and> page_array a' = page_array a \<and>
         set (free_list a') \<subseteq> set (free_list a) \<and>
         set (free_list a) \<subseteq> set (free_list a') \<union> set fs"
proof (induction count a al ad list arbitrary: al' ad' list' a' rule: pmm_alloc_range_inner.induct)
  case (1 count a al ad list)
  show ?case
  proof (cases "(ucast al :: size_t) < count \<and> address_in_arena a ad")
    case False
    with "1.prems" have "al' = al" "ad' = ad" "list' = list" "a' = a"
      by (simp_all add: inner_stop)
    with "1.prems" show ?thesis
      by (intro exI [of _ "[]"]) (simp split: option.splits)
  next
    case True
    obtain r a1 where as: "AllocSpecific a ad = (r, a1)"
      by (cases "AllocSpecific a ad")
    show ?thesis
    proof (cases r)
      case None
      with True as "1.prems" AllocSpecific_None [of a ad a1]
      have "al' = al" "ad' = ad" "list' = list" "a' = a"
        by (simp_all add: inner_fail)
      with "1.prems" show ?thesis
        by (intro exI [of _ "[]"]) (simp split: option.splits)
    next
      case (Some page)
      let ?list1 = "case list of None \<Rightarrow> None | Some l \<Rightarrow> Some (l @ [page])"
      from True as Some "1.prems"
      have r: "pmm_alloc_range_inner count a1 (al + 1) (ad + PAGE_SIZE) ?list1 = (al', ad', list', a')"
        by (simp add: inner_step)
      from True "1.prems"(1) have s: "unat (al + 1) = unat al + 1" "unat (al + 1) \<le> unat count"
        using uint_succ [of count al] by simp_all
      from as Some have "AllocSpecific a ad = (Some page, a1)"
        by simp
      from AllocSpecific_Some [OF this]
      have p: "page = frame_for a ad" "page \<in> set (free_list a)" "address_in_arena a ad"
        "arena_info a1 = arena_info a" "page_array a1 = page_array a"
        "set (free_list a1) \<subseteq> set (free_list a)"
        by blast+
      from \<open>AllocSpecific a ad = (Some page, a1)\<close>
      have "free_list a1 = remove1 page (free_list a)"
        by (auto simp: AllocSpecific_def Let_def split: if_splits)
      then have k1: "set (free_list a) \<subseteq> set (free_list a1) \<union> {page}"
        by (metis in_set_remove1 UnI1 UnI2 singletonI subsetI)
      from "1.IH" [OF True as [symmetric] Some "1.prems"(1) r s(2)]
      obtain fs where f: "unat al' = unat (al + 1) + length fs" "unat al' \<le> unat count"
        "ad' = ad + PAGE_SIZE + of_nat (length fs) * PAGE_SIZE"
        "list' = (case ?list1 of None \<Rightarrow> None | Some l \<Rightarrow> Some (l @ fs))"
        "taken a1 (ad + PAGE_SIZE) fs"
        "arena_info a' = arena_info a1" "page_array a' = page_array a1"
        "set (free_list a') \<subseteq> set (free_list a1)"
        "set (free_list a1) \<subseteq> set (free_list a') \<union> set fs"
        by (elim exE conjE)
      from k1 f(9) have k: "set (free_list a) \<subseteq> set (free_list a') \<union> set (page # fs)"
        by auto
      from f(5) p have t: "taken a ad (page # fs)"
        by (simp add: taken_mono [of a1 _ fs a])
      from f(4) have l: "list' = (case list of None \<Rightarrow> None | Some l \<Rightarrow> Some (l @ page # fs))"
        by (simp split: option.splits)
      from f(3) have a: "ad' = ad + of_nat (length (page # fs)) * PAGE_SIZE"
        by (simp add: algebra_simps)
      from f(1) s(1) have n: "unat al' = unat al + length (page # fs)"
        by simp
      from f(6,7,8) p(4,5,6) have i: "arena_info a' = arena_info a" "page_array a' = page_array a"
        "set (free_list a') \<subseteq> set (free_list a)"
        by (simp, simp, blast)
      from n f(2) a l t i k show ?thesis
        by (intro exI [of _ "page # fs"] conjI)
    qed
  qed
qed




lemma taken_taken_in: "taken a ad fs \<Longrightarrow> a \<in> set as \<Longrightarrow> taken_in as ad fs"
  by (induction fs arbitrary: ad) (auto simp: list_ex_iff)

lemma taken_in_mono: "taken_in as ad fs \<Longrightarrow> set as \<subseteq> set bs \<Longrightarrow> taken_in bs ad fs"
  by (induction fs arbitrary: ad) (auto simp: list_ex_iff)

lemma taken_in_append:
  "taken_in as ad fs1 \<Longrightarrow> taken_in as (ad + of_nat (length fs1) * PAGE_SIZE) fs2 \<Longrightarrow>
   taken_in as ad (fs1 @ fs2)"
proof (induction fs1 arbitrary: ad)
  case Nil
  then show ?case by simp
next
  case (Cons p fs1)
  from Cons.prems(2) have "taken_in as (ad + PAGE_SIZE + of_nat (length fs1) * PAGE_SIZE) fs2"
    by (simp add: algebra_simps)
  with Cons.IH [of "ad + PAGE_SIZE"] Cons.prems(1) show ?case
    by simp
qed

lemma loop_props:
  "unat count < 2 ^ 32 \<Longrightarrow>
   pmm_alloc_range_loop count al ad list as = (al', ad', list', as') \<Longrightarrow>
   unat al \<le> unat count \<Longrightarrow>
   \<exists>fs. unat al' = unat al + length fs \<and> unat al' \<le> unat count \<and>
        list' = (case list of None \<Rightarrow> None | Some l \<Rightarrow> Some (l @ fs)) \<and>
        taken_in as ad fs"
proof (induction as arbitrary: al ad list al' ad' list' as')
  case Nil
  then show ?case
    by (intro exI [of _ "[]"]) (simp split: option.splits)
next
  case (Cons a as)
  obtain al1 ad1 list1 a1
    where i: "pmm_alloc_range_inner count a al ad list = (al1, ad1, list1, a1)"
    by (metis prod_cases4)
  from inner_props [OF Cons.prems(1) i Cons.prems(3)]
  obtain fs1 where f1: "unat al1 = unat al + length fs1" "unat al1 \<le> unat count"
    "ad1 = ad + of_nat (length fs1) * PAGE_SIZE"
    "list1 = (case list of None \<Rightarrow> None | Some l \<Rightarrow> Some (l @ fs1))"
    "taken a ad fs1"
    by (elim exE conjE)
  from f1(5) have t1: "taken_in (a # as) ad fs1"
    by (simp add: taken_taken_in)
  show ?case
  proof (cases "(ucast al1 :: size_t) = count")
    case True
    with Cons.prems(2) i have "al' = al1" "list' = list1"
      by simp_all
    with f1 t1 show ?thesis
      by (intro exI [of _ fs1]) simp
  next
    case False
    obtain al2 ad2 list2 as2
      where r: "pmm_alloc_range_loop count al1 ad1 list1 as = (al2, ad2, list2, as2)"
      by (metis prod_cases4)
    with False Cons.prems(2) i have e: "al' = al2" "list' = list2"
      by simp_all
    from Cons.IH [OF Cons.prems(1) r f1(2)]
    obtain fs2 where f2: "unat al2 = unat al1 + length fs2" "unat al2 \<le> unat count"
      "list2 = (case list1 of None \<Rightarrow> None | Some l \<Rightarrow> Some (l @ fs2))"
      "taken_in as ad1 fs2"
      by (elim exE conjE)
    from f2(4) f1(3) have "taken_in (a # as) (ad + of_nat (length fs1) * PAGE_SIZE) fs2"
      by (auto intro: taken_in_mono)
    with t1 have t: "taken_in (a # as) ad (fs1 @ fs2)"
      by (rule taken_in_append)
    from f2(3) f1(4) have l: "list2 = (case list of None \<Rightarrow> None | Some l \<Rightarrow> Some (l @ fs1 @ fs2))"
      by (simp split: option.splits)
    from f1(1) f2(1) have n: "unat al2 = unat al + length (fs1 @ fs2)"
      by simp
    from n f2(2) l t e show ?thesis
      by (intro exI [of _ "fs1 @ fs2"]) simp
  qed
qed

lemma ranges_apart_excl:
  "ranges_apart a b \<Longrightarrow> address_in_arena a x \<Longrightarrow> \<not> address_in_arena b x"
  by (auto simp: ranges_apart_def address_in_arena_def base_def size_arena_def)

lemma paddr_unique:
  "no_overlap as \<Longrightarrow> a \<in> set as \<Longrightarrow> address_in_arena a x \<Longrightarrow>
   paddr_to_vm_page_loop as x = Some (frame_for a x)"
proof (induction as)
  case Nil
  then show ?case by simp
next
  case (Cons b bs)
  show ?case
  proof (cases "a = b")
    case True
    with Cons.prems(3) show ?thesis
      by (simp add: frame_for_def)
  next
    case False
    with Cons.prems have m: "a \<in> set bs" and "ranges_apart b a"
      by (simp_all add: list_all_iff)
    with Cons.prems(3) have "\<not> address_in_arena b x"
      using ranges_apart_excl [of b a] ranges_apart_excl [of a b] ranges_apart_def by blast
    with Cons.IH m Cons.prems show ?thesis
      by simp
  qed
qed

lemma taken_in_index:
  "taken_in as ad fs \<Longrightarrow> no_overlap as \<Longrightarrow> i < length fs \<Longrightarrow>
   paddr_to_vm_page_loop as (ad + of_nat i * PAGE_SIZE) = Some (fs ! i) \<and>
   list_ex (\<lambda>a. fs ! i \<in> set (free_list a)) as"
proof (induction fs arbitrary: ad i)
  case Nil
  then show ?case by simp
next
  case (Cons p fs)
  show ?case
  proof (cases i)
    case 0
    from Cons.prems(1) obtain a where "a \<in> set as" "address_in_arena a ad" "p = frame_for a ad"
      "p \<in> set (free_list a)"
      by (auto simp: list_ex_iff)
    with 0 paddr_unique [OF Cons.prems(2), of a ad] show ?thesis
      by (auto simp: list_ex_iff)
  next
    case (Suc j)
    with Cons.prems have "taken_in as (ad + PAGE_SIZE) fs" "j < length fs"
      by simp_all
    from Cons.IH [OF this(1) Cons.prems(2) this(2)] Suc show ?thesis
      by (simp add: algebra_simps)
  qed
qed

lemma rem_diff:
  assumes "(r1 :: 64 word) < 4096" "r2 < 4096" "4096 \<le> r2 - r1" "r2 - r1 < 0x100000000000"
  shows False
proof -
  from assms(1,2) have b: "unat r1 < 4096" "unat r2 < 4096"
    by (simp_all add: word_less_nat_alt)
  from assms(3,4) have d: "4096 \<le> unat (r2 - r1)" "unat (r2 - r1) < 17592186044416"
    by (simp_all add: word_le_nat_alt word_less_nat_alt)
  have "unat (r2 - r1) =
        (if unat r1 \<le> unat r2 then unat r2 - unat r1 else unat r2 + 2 ^ 64 - unat r1)"
    using unat_sub_if_size [of r2 r1] by (simp add: word_size)
  with b d show False
    by (simp split: if_splits)
qed

lemma of_nat_pages:
  assumes "0 < d" "d < 2 ^ 32"
  shows "(4096 :: 64 word) \<le> of_nat d * 4096" "(of_nat d * 4096 :: 64 word) < 0x100000000000"
proof -
  from assms(2) have "d < 2 ^ 64"
    by simp
  then have ud: "unat (of_nat d :: 64 word) = d"
    by (simp add: unat_of_nat)
  with assms(2) have "unat (of_nat d :: 64 word) * unat (4096 :: 64 word) < 2 ^ LENGTH(64)"
    by simp
  then have "unat (of_nat d * 4096 :: 64 word) = unat (of_nat d :: 64 word) * unat (4096 :: 64 word)"
    by (simp only: unat_mult_lem)
  with ud have u: "unat (of_nat d * 4096 :: 64 word) = d * 4096"
    by simp
  from assms u show "(4096 :: 64 word) \<le> of_nat d * 4096"
    by (simp add: word_le_nat_alt)
  from assms u show "(of_nat d * 4096 :: 64 word) < 0x100000000000"
    by (simp add: word_less_nat_alt)
qed

lemma div_page_distinct:
  assumes "0 < d" "d < 2 ^ 32"
  shows "((u :: 64 word) + of_nat d * 4096) div 4096 \<noteq> u div 4096"
proof
  let ?v = "u + of_nat d * 4096"
  assume e: "?v div 4096 = u div 4096"
  have 1: "u = (u div 4096) * 4096 + u mod 4096"
    by (simp add: word_mod_div_equality)
  have 2: "?v = (u div 4096) * 4096 + ?v mod 4096"
    using word_mod_div_equality [of ?v 4096] e by simp
  from 1 2 have "?v - u = ?v mod 4096 - u mod 4096"
    by (metis add_diff_cancel_left)
  then have w: "of_nat d * 4096 = ?v mod 4096 - u mod 4096"
    by simp
  have r1: "u mod 4096 < 4096" and r2: "?v mod 4096 < 4096"
    by (simp_all add: word_mod_less_divisor)
  from of_nat_pages [OF assms] w have "4096 \<le> ?v mod 4096 - u mod 4096"
    "?v mod 4096 - u mod 4096 < 0x100000000000"
    by simp_all
  with r1 r2 show False
    by (rule rem_diff)
qed


lemma frame_for_distinct:
  assumes "0 < d" "d < 2 ^ 32"
  shows "frame_for a (x + of_nat d * PAGE_SIZE) \<noteq> frame_for a x"
proof
  let ?u = "x - base a"
  assume "frame_for a (x + of_nat d * PAGE_SIZE) = frame_for a x"
  then have "((?u + of_nat d * 4096) div 4096) * 32 = (?u div 4096) * 32"
    by (simp add: frame_for_def get_page_def PAGE_SIZE_def VM_PAGE_STRUCT_SIZE_def algebra_simps)
  then have "(((?u + of_nat d * 4096) div 4096) * 32) div 32 = ((?u div 4096) * 32) div 32"
    by simp
  then have "(?u + of_nat d * 4096) div 4096 = ?u div 4096"
    by (simp only: index_times_struct_div)
  with div_page_distinct [OF assms, of ?u] show False
    by simp
qed

lemma inner_exit:
  "pmm_alloc_range_inner count a al ad list = (al', ad', list', a') \<Longrightarrow>
   (ucast al' :: size_t) < count \<Longrightarrow>
   \<not> address_in_arena a' ad' \<or> frame_for a' ad' \<notin> set (free_list a')"
proof (induction count a al ad list rule: pmm_alloc_range_inner.induct)
  case (1 count a al ad list)
  show ?case
  proof (cases "(ucast al :: size_t) < count \<and> address_in_arena a ad")
    case False
    with "1.prems" show ?thesis
      by (auto simp: inner_stop)
  next
    case True
    obtain r a1 where as: "AllocSpecific a ad = (r, a1)"
      by (cases "AllocSpecific a ad")
    show ?thesis
    proof (cases r)
      case None
      with True as "1.prems" have e: "al' = al" "ad' = ad" "a' = a1"
        by (simp_all add: inner_fail)
      from as None True have "a1 = a" "frame_for a ad \<notin> set (free_list a)"
        by (auto simp: AllocSpecific_def frame_for_def Let_def split: if_splits)
      with e show ?thesis by simp
    next
      case (Some page)
      with True as "1.prems"
      have "pmm_alloc_range_inner count a1 (al + 1) (ad + PAGE_SIZE)
              (case list of None \<Rightarrow> None | Some l \<Rightarrow> Some (l @ [page])) = (al', ad', list', a')"
        by (simp add: inner_step)
      from "1.IH" [OF True as [symmetric] Some this "1.prems"(2)] show ?thesis .
    qed
  qed
qed

lemma taken_index:
  "taken a ad fs \<Longrightarrow> i < length fs \<Longrightarrow> fs ! i = frame_for a (ad + of_nat i * PAGE_SIZE)"
proof (induction fs arbitrary: ad i)
  case Nil
  then show ?case by simp
next
  case (Cons p fs)
  show ?case
  proof (cases i)
    case 0
    with Cons.prems show ?thesis by simp
  next
    case (Suc j)
    with Cons.prems have "taken a (ad + PAGE_SIZE) fs" "j < length fs"
      by simp_all
    from Cons.IH [OF this] Suc show ?thesis
      by (simp add: algebra_simps)
  qed
qed

lemma inner_max:
  assumes c: "unat count < 2 ^ 32"
    and r: "pmm_alloc_range_inner count a 0 ad list = (al', ad', list', a')"
    and l: "unat al' < unat count"
  shows "\<not> address_in_arena a (ad + of_nat (unat al') * PAGE_SIZE) \<or>
         frame_for a (ad + of_nat (unat al') * PAGE_SIZE) \<notin> set (free_list a)"
proof -
  from inner_props [OF c r]
  obtain fs where f: "unat al' = unat (0 :: uint) + length fs"
    "ad' = ad + of_nat (length fs) * PAGE_SIZE" "taken a ad fs"
    "arena_info a' = arena_info a" "page_array a' = page_array a"
    "set (free_list a) \<subseteq> set (free_list a') \<union> set fs"
    by (auto elim!: exE conjE)
  from f(1) have k: "length fs = unat al'" by simp
  from l have "(ucast al' :: size_t) < count"
    by (simp add: word_less_nat_alt unat_ucast_uint)
  from inner_exit [OF r this]
  have e: "\<not> address_in_arena a' ad' \<or> frame_for a' ad' \<notin> set (free_list a')" .
  from f(4,5) have s: "address_in_arena a' ad' = address_in_arena a ad'"
    "frame_for a' ad' = frame_for a ad'"
    by (simp_all add: address_in_arena_def frame_for_def get_page_def base_def)
  have "frame_for a ad' \<notin> set fs"
  proof
    assume "frame_for a ad' \<in> set fs"
    then obtain j where j: "j < length fs" "fs ! j = frame_for a ad'"
      by (auto simp: in_set_conv_nth)
    let ?x = "ad + of_nat j * PAGE_SIZE"
    let ?d = "length fs - j"
    from j(1) k l c have d: "0 < ?d" "?d < 2 ^ 32"
      by simp_all
    from j(1) have "of_nat (length fs) = (of_nat j + of_nat ?d :: 64 word)"
      by (simp flip: of_nat_add)
    with f(2) have "ad' = ?x + of_nat ?d * PAGE_SIZE"
      by (simp add: algebra_simps)
    with frame_for_distinct [OF d, of a ?x] have "frame_for a ad' \<noteq> frame_for a ?x"
      by simp
    with taken_index [OF f(3) j(1)] j(2) show False
      by simp
  qed
  with e s f(6) f(2) k show ?thesis
    by auto
qed

lemma single_arena_max:
  assumes c: "unat count < 2 ^ 32"
    and s: "arena_list st = [a]"
    and r: "pmm_alloc_range start count list st = (n, lo, st')"
    and l: "unat n < unat count"
  shows "\<forall>p. paddr_to_vm_page st (ROUNDDOWN start PAGE_SIZE + of_nat (unat n) * PAGE_SIZE) = Some p \<longrightarrow>
             \<not> page_is_free st p"
proof -
  let ?ad = "ROUNDDOWN start PAGE_SIZE"
  from l have nz: "count \<noteq> 0"
    by (auto simp: unat_gt_0)
  obtain al ad' list' a'
    where i: "pmm_alloc_range_inner count a 0 ?ad list = (al, ad', list', a')"
    by (metis prod_cases4)
  with r nz s have "n = ucast al"
    by (auto simp: pmm_alloc_range_def split: if_splits)
  then have un: "unat n = unat al"
    by (simp add: unat_ucast_uint)
  with l have "unat al < unat count" by simp
  from inner_max [OF c i this] un s show ?thesis
    by (auto simp: paddr_to_vm_page_def page_is_free_def frame_for_def)
qed

subsection \<open>The pages that pmm\_alloc\_range takes\<close>

lemma range_pages_0 [simp]: "range_pages ad 0 = []"
  by (simp add: range_pages_def)

lemma range_pages_Suc: "range_pages ad (Suc n) = ad # range_pages (ad + PAGE_SIZE) n"
proof -
  have "[0..<Suc n] = 0 # map Suc [0..<n]"
    by (simp add: upt_conv_Cons map_Suc_upt del: upt_Suc)
  then have "range_pages ad (Suc n) =
             (ad + of_nat 0 * PAGE_SIZE) # map (\<lambda>i. ad + of_nat (Suc i) * PAGE_SIZE) [0..<n]"
    by (simp add: range_pages_def comp_def del: upt_Suc)
  also have "\<dots> = ad # range_pages (ad + PAGE_SIZE) n"
    by (simp add: range_pages_def algebra_simps)
  finally show ?thesis .
qed

lemma range_pages_add:
  "range_pages ad (m + n) = range_pages ad m @ range_pages (ad + of_nat m * PAGE_SIZE) n"
proof (induction m arbitrary: ad)
  case 0
  then show ?case by simp
next
  case (Suc m)
  have "range_pages ad (Suc m + n) = ad # range_pages (ad + PAGE_SIZE) (m + n)"
    by (simp add: range_pages_Suc)
  also have "\<dots> = ad # range_pages (ad + PAGE_SIZE) m @
                   range_pages (ad + PAGE_SIZE + of_nat m * PAGE_SIZE) n"
    by (simp add: Suc.IH)
  also have "\<dots> = range_pages ad (Suc m) @ range_pages (ad + of_nat (Suc m) * PAGE_SIZE) n"
    by (simp add: range_pages_Suc algebra_simps)
  finally show ?case .
qed

lemma length_range_pages [simp]: "length (range_pages ad n) = n"
  by (simp add: range_pages_def)

lemma set_range_pages: "set (range_pages ad n) = (\<lambda>i. ad + of_nat i * PAGE_SIZE) ` {0..<n}"
  by (simp add: range_pages_def)

lemma taken_pages:
  "taken a ad fs \<Longrightarrow>
   (\<forall>x\<in>set (range_pages ad (length fs)).
      address_in_arena a x \<and> frame_for a x \<in> set (free_list a)) \<and>
   fs = map (frame_for a) (range_pages ad (length fs))"
  by (induction fs arbitrary: ad) (auto simp: range_pages_Suc)

lemma AllocSpecific_take:
  assumes "AllocSpecific a ad = (Some page, a1)"
  shows "a1 = take_frame a ad"
  using assms
  by (auto simp: AllocSpecific_def take_frame_def frame_for_def Let_def split: if_splits)

lemma inner_state:
  "unat count < 2 ^ 32 \<Longrightarrow>
   pmm_alloc_range_inner count a al ad list = (al', ad', list', a') \<Longrightarrow>
   unat al \<le> unat count \<Longrightarrow>
   a' = foldl take_frame a (range_pages ad (unat al' - unat al))"
proof (induction count a al ad list arbitrary: al' ad' list' a' rule: pmm_alloc_range_inner.induct)
  case (1 count a al ad list)
  show ?case
  proof (cases "(ucast al :: size_t) < count \<and> address_in_arena a ad")
    case False
    with "1.prems" have "al' = al" "a' = a"
      by (simp_all add: inner_stop)
    then show ?thesis by simp
  next
    case True
    obtain r a1 where as: "AllocSpecific a ad = (r, a1)"
      by (cases "AllocSpecific a ad")
    show ?thesis
    proof (cases r)
      case None
      with True as "1.prems" AllocSpecific_None [of a ad a1]
      have "al' = al" "a' = a"
        by (simp_all add: inner_fail)
      then show ?thesis by simp
    next
      case (Some page)
      let ?list1 = "case list of None \<Rightarrow> None | Some l \<Rightarrow> Some (l @ [page])"
      from True as Some "1.prems"
      have r: "pmm_alloc_range_inner count a1 (al + 1) (ad + PAGE_SIZE) ?list1 = (al', ad', list', a')"
        by (simp add: inner_step)
      from True "1.prems"(1) have s: "unat (al + 1) = unat al + 1" "unat (al + 1) \<le> unat count"
        using uint_succ [of count al] by simp_all
      from as Some have a1: "a1 = take_frame a ad"
        by (simp add: AllocSpecific_take)
      from inner_props [OF "1.prems"(1) r s(2)]
      have "unat (al + 1) \<le> unat al'"
        by (elim exE conjE) simp
      with s(1) have d: "unat al' - unat al = Suc (unat al' - unat (al + 1))"
        by simp
      from "1.IH" [OF True as [symmetric] Some "1.prems"(1) r s(2)]
      have "a' = foldl take_frame a1 (range_pages (ad + PAGE_SIZE) (unat al' - unat (al + 1)))" .
      with a1 d show ?thesis
        by (simp add: range_pages_Suc)
    qed
  qed
qed

lemma inner_max_gen:
  assumes c: "unat count < 2 ^ 32"
    and r: "pmm_alloc_range_inner count a al ad list = (al', ad', list', a')"
    and le: "unat al \<le> unat count"
    and l: "unat al' < unat count"
  shows "\<not> address_in_arena a ad' \<or> frame_for a ad' \<notin> set (free_list a)"
proof -
  from inner_props [OF c r le]
  obtain fs where f: "unat al' = unat al + length fs"
    "ad' = ad + of_nat (length fs) * PAGE_SIZE" "taken a ad fs"
    "arena_info a' = arena_info a" "page_array a' = page_array a"
    "set (free_list a) \<subseteq> set (free_list a') \<union> set fs"
    by (auto elim!: exE conjE)
  from l have "(ucast al' :: size_t) < count"
    by (simp add: word_less_nat_alt unat_ucast_uint)
  from inner_exit [OF r this]
  have e: "\<not> address_in_arena a' ad' \<or> frame_for a' ad' \<notin> set (free_list a')" .
  from f(4,5) have s: "address_in_arena a' ad' = address_in_arena a ad'"
    "frame_for a' ad' = frame_for a ad'"
    by (simp_all add: address_in_arena_def frame_for_def get_page_def base_def)
  have "frame_for a ad' \<notin> set fs"
  proof
    assume "frame_for a ad' \<in> set fs"
    then obtain j where j: "j < length fs" "fs ! j = frame_for a ad'"
      by (auto simp: in_set_conv_nth)
    let ?x = "ad + of_nat j * PAGE_SIZE"
    let ?d = "length fs - j"
    from j(1) f(1) l c have d: "0 < ?d" "?d < 2 ^ 32"
      by simp_all
    from j(1) have "of_nat (length fs) = (of_nat j + of_nat ?d :: 64 word)"
      by (simp flip: of_nat_add)
    with f(2) have "ad' = ?x + of_nat ?d * PAGE_SIZE"
      by (simp add: algebra_simps)
    with frame_for_distinct [OF d, of a ?x] have "frame_for a ad' \<noteq> frame_for a ?x"
      by simp
    with taken_index [OF f(3) j(1)] j(2) show False
      by simp
  qed
  with e s f(6) show ?thesis
    by auto
qed


lemma page_free_in: "page_free_at as x \<Longrightarrow> \<exists>b\<in>set as. address_in_arena b x"
  by (induction as) (auto split: if_splits)

lemma no_overlap_head:
  "no_overlap (a # bs) \<Longrightarrow> b \<in> set bs \<Longrightarrow> address_in_arena b x \<Longrightarrow> \<not> address_in_arena a x"
  using ranges_apart_excl [of a b x] by (auto simp: list_all_iff)

lemma info_in_arena:
  "arena_info a1 = arena_info a \<Longrightarrow> address_in_arena a1 x = address_in_arena a x"
  by (simp add: address_in_arena_def base_def size_arena_def)

lemma take_frame_in_arena [simp]: "address_in_arena (take_frame a x) y = address_in_arena a y"
  by (simp add: take_frame_def address_in_arena_def base_def size_arena_def)

lemma foldl_take_head:
  "\<forall>x\<in>set ps. address_in_arena a x \<Longrightarrow>
   foldl take_page (a # bs) ps = foldl take_frame a ps # bs"
  by (induction ps arbitrary: a) simp_all

lemma foldl_take_tail:
  "\<forall>x\<in>set ps. \<not> address_in_arena a x \<Longrightarrow>
   foldl take_page (a # bs) ps = a # foldl take_page bs ps"
  by (induction ps arbitrary: bs) simp_all

lemma sorted_map_zero: "\<forall>x\<in>set xs. f x = (0 :: nat) \<Longrightarrow> sorted (map f xs)"
  by (induction xs) simp_all

lemma sorted_map_Suc: "sorted (map (\<lambda>x. Suc (f x)) xs) = sorted (map f xs)"
  by (induction xs) simp_all

lemma loop_exact:
  "unat count < 2 ^ 32 \<Longrightarrow> no_overlap as \<Longrightarrow>
   pmm_alloc_range_loop count al ad list as = (al', ad', list', as') \<Longrightarrow>
   unat al \<le> unat count \<Longrightarrow>
   \<exists>m. unat al' = unat al + m \<and>
       list_all (page_free_at as) (range_pages ad m) \<and>
       sorted (map (arena_pos as) (range_pages ad m)) \<and>
       as' = foldl take_page as (range_pages ad m) \<and>
       (unat al' < unat count \<longrightarrow>
          \<not> page_free_at as (ad + of_nat m * PAGE_SIZE) \<or>
          (0 < m \<and> arena_pos as (ad + of_nat m * PAGE_SIZE) <
                   arena_pos as (ad + of_nat (m - 1) * PAGE_SIZE)))"
proof (induction as arbitrary: al ad list al' ad' list' as')
  case Nil
  then show ?case
    by (intro exI [of _ 0]) simp
next
  case (Cons a bs)
  note c = Cons.prems(1) and le = Cons.prems(4)
  from Cons.prems(2) have nb: "no_overlap bs"
    by simp
  obtain al1 ad1 list1 a1
    where i: "pmm_alloc_range_inner count a al ad list = (al1, ad1, list1, a1)"
    by (metis prod_cases4)
  from inner_props [OF c i le]
  obtain fs1 where f1: "unat al1 = unat al + length fs1" "unat al1 \<le> unat count"
    "ad1 = ad + of_nat (length fs1) * PAGE_SIZE"
    "list1 = (case list of None \<Rightarrow> None | Some l \<Rightarrow> Some (l @ fs1))"
    "taken a ad fs1" "arena_info a1 = arena_info a"
    by (elim exE conjE)
  let ?m1 = "length fs1"
  let ?ps1 = "range_pages ad ?m1"
  from taken_pages [OF f1(5)]
  have in1: "\<forall>x\<in>set ?ps1. address_in_arena a x \<and> frame_for a x \<in> set (free_list a)"
    by (rule conjunct1)
  from inner_state [OF c i le] f1(1) have a1: "a1 = foldl take_frame a ?ps1"
    by simp
  from in1 have free1: "list_all (page_free_at (a # bs)) ?ps1"
    by (simp add: list_all_iff)
  from in1 have pos1: "\<forall>x\<in>set ?ps1. arena_pos (a # bs) x = 0"
    by simp
  from in1 a1 have st1: "foldl take_page (a # bs) ?ps1 = a1 # bs"
    by (simp add: foldl_take_head)
  show ?case
  proof (cases "(ucast al1 :: size_t) = count")
    case True
    with Cons.prems(3) i have e: "al' = al1" "as' = a1 # bs"
      by simp_all
    from True have "unat (ucast al1 :: size_t) = unat count"
      by simp
    then have u: "unat al1 = unat count"
      by (simp add: unat_ucast_uint)
    from pos1 have so1: "sorted (map (arena_pos (a # bs)) ?ps1)"
      by (rule sorted_map_zero)
    from e f1(1) have n: "unat al' = unat al + ?m1"
      by simp
    from e st1 have st': "as' = foldl take_page (a # bs) ?ps1"
      by simp
    from e u have stop: "unat al' < unat count \<longrightarrow>
          \<not> page_free_at (a # bs) (ad + of_nat ?m1 * PAGE_SIZE) \<or>
          (0 < ?m1 \<and> arena_pos (a # bs) (ad + of_nat ?m1 * PAGE_SIZE) <
                     arena_pos (a # bs) (ad + of_nat (?m1 - 1) * PAGE_SIZE))"
      by simp
    from n free1 so1 st' stop show ?thesis
      by (intro exI [of _ ?m1] conjI)
  next
    case False
    have "unat al1 \<noteq> unat count"
    proof
      assume "unat al1 = unat count"
      then have "unat (ucast al1 :: size_t) = unat count"
        by (simp add: unat_ucast_uint)
      then have "(ucast al1 :: size_t) = count"
        by (simp only: word_unat_eq_iff)
      with False show False
        by simp
    qed
    with f1(2) have l1: "unat al1 < unat count"
      by simp
    obtain al2 ad2 list2 as2
      where r: "pmm_alloc_range_loop count al1 ad1 list1 bs = (al2, ad2, list2, as2)"
      by (metis prod_cases4)
    with False Cons.prems(3) i have e: "al' = al2" "as' = a1 # as2"
      by simp_all
    from Cons.IH [OF c nb r f1(2)]
    obtain m2 where g: "unat al2 = unat al1 + m2"
      "list_all (page_free_at bs) (range_pages ad1 m2)"
      "sorted (map (arena_pos bs) (range_pages ad1 m2))"
      "as2 = foldl take_page bs (range_pages ad1 m2)"
      "unat al2 < unat count \<longrightarrow>
          \<not> page_free_at bs (ad1 + of_nat m2 * PAGE_SIZE) \<or>
          (0 < m2 \<and> arena_pos bs (ad1 + of_nat m2 * PAGE_SIZE) <
                    arena_pos bs (ad1 + of_nat (m2 - 1) * PAGE_SIZE))"
      by (elim exE conjE)
    let ?ps2 = "range_pages ad1 m2"
    have notin: "\<not> address_in_arena a x" if "x \<in> set ?ps2" for x
    proof -
      from g(2) that have "page_free_at bs x"
        by (simp add: list_all_iff)
      then obtain b where "b \<in> set bs" "address_in_arena b x"
        using page_free_in by blast
      with Cons.prems(2) show ?thesis
        by (rule no_overlap_head)
    qed
    have notin1: "\<not> address_in_arena a1 x" if "x \<in> set ?ps2" for x
      using notin [OF that] by (simp add: info_in_arena [OF f1(6)])
    from g(2) notin have free2: "list_all (page_free_at (a # bs)) ?ps2"
      by (simp add: list_all_iff)
    from notin have pos2: "map (arena_pos (a # bs)) ?ps2 = map (\<lambda>x. Suc (arena_pos bs x)) ?ps2"
      by simp
    from f1(3) have sp: "range_pages ad (?m1 + m2) = ?ps1 @ ?ps2"
      by (simp add: range_pages_add)
    from pos1 have so1: "sorted (map (arena_pos (a # bs)) ?ps1)"
      by (rule sorted_map_zero)
    from g(3) have so2: "sorted (map (arena_pos (a # bs)) ?ps2)"
      by (simp only: pos2 sorted_map_Suc)
    from pos1 have cross: "\<forall>x\<in>set (map (arena_pos (a # bs)) ?ps1).
                             \<forall>y\<in>set (map (arena_pos (a # bs)) ?ps2). x \<le> y"
      by auto
    have so: "sorted (map (arena_pos (a # bs)) (?ps1 @ ?ps2))"
      unfolding map_append sorted_append using so1 so2 cross by blast
    from notin1 have "foldl take_page (a1 # bs) ?ps2 = a1 # foldl take_page bs ?ps2"
      by (simp add: foldl_take_tail)
    with st1 g(4) have st: "a1 # as2 = foldl take_page (a # bs) (?ps1 @ ?ps2)"
      by simp
    let ?xn = "ad + of_nat (?m1 + m2) * PAGE_SIZE"
    let ?xl = "ad + of_nat (?m1 + m2 - 1) * PAGE_SIZE"
    from f1(3) have xn: "?xn = ad1 + of_nat m2 * PAGE_SIZE"
      by (simp add: algebra_simps)
    have stop: "\<not> page_free_at (a # bs) ?xn \<or>
                (0 < ?m1 + m2 \<and> arena_pos (a # bs) ?xn < arena_pos (a # bs) ?xl)"
      if l2: "unat al2 < unat count"
    proof (cases "m2 = 0")
      case True
      with g(5) l2 have "\<not> page_free_at bs ad1"
        by simp
      moreover from inner_max_gen [OF c i le l1]
      have "\<not> address_in_arena a ad1 \<or> frame_for a ad1 \<notin> set (free_list a)" .
      ultimately have "\<not> page_free_at (a # bs) ad1"
        by auto
      with True xn show ?thesis
        by simp
    next
      case False
      then have "?m1 + m2 - 1 = ?m1 + (m2 - 1)"
        by simp
      with f1(3) have xl: "?xl = ad1 + of_nat (m2 - 1) * PAGE_SIZE"
        by (simp add: algebra_simps)
      from False have "m2 - 1 \<in> {0..<m2}"
        by simp
      then have "ad1 + of_nat (m2 - 1) * PAGE_SIZE \<in> set ?ps2"
        unfolding set_range_pages by (rule imageI)
      from notin [OF this]
      have "arena_pos (a # bs) (ad1 + of_nat (m2 - 1) * PAGE_SIZE) =
            Suc (arena_pos bs (ad1 + of_nat (m2 - 1) * PAGE_SIZE))"
        by simp
      then have pl: "arena_pos (a # bs) ?xl = Suc (arena_pos bs (ad1 + of_nat (m2 - 1) * PAGE_SIZE))"
        by (simp only: xl)
      from g(5) l2 False
      have d: "\<not> page_free_at bs (ad1 + of_nat m2 * PAGE_SIZE) \<or>
               arena_pos bs (ad1 + of_nat m2 * PAGE_SIZE) <
                 arena_pos bs (ad1 + of_nat (m2 - 1) * PAGE_SIZE)"
        by simp
      show ?thesis
      proof (cases "address_in_arena a ?xn")
        case True
        with pl False show ?thesis
          by simp
      next
        case False
        with d pl xn \<open>m2 \<noteq> 0\<close> show ?thesis
          by auto
      qed
    qed
    from e g(1) f1(1) have n: "unat al' = unat al + (?m1 + m2)"
      by simp
    from free1 free2 sp have fr: "list_all (page_free_at (a # bs)) (range_pages ad (?m1 + m2))"
      by simp
    from so sp have so': "sorted (map (arena_pos (a # bs)) (range_pages ad (?m1 + m2)))"
      by simp
    from st sp e have st': "as' = foldl take_page (a # bs) (range_pages ad (?m1 + m2))"
      by simp
    have stop': "unat al' < unat count \<longrightarrow>
          \<not> page_free_at (a # bs) ?xn \<or>
          (0 < ?m1 + m2 \<and> arena_pos (a # bs) ?xn < arena_pos (a # bs) ?xl)"
      unfolding e(1) using stop by blast
    from n fr so' st' stop' show ?thesis
      by (intro exI [of _ "?m1 + m2"] conjI)
  qed
qed

lemma range_exact:
  assumes "no_overlap (arena_list st)" and "unat count < 2 ^ 32"
    and "pmm_alloc_range start count list st = (n, lo, st')"
  shows "list_all (page_free_at (arena_list st)) (range_pages (ROUNDDOWN start PAGE_SIZE) (unat n)) \<and>
         sorted (map (arena_pos (arena_list st)) (range_pages (ROUNDDOWN start PAGE_SIZE) (unat n))) \<and>
         (unat n < unat count \<longrightarrow>
            \<not> page_free_at (arena_list st) (ROUNDDOWN start PAGE_SIZE + of_nat (unat n) * PAGE_SIZE) \<or>
            (0 < unat n \<and>
             arena_pos (arena_list st) (ROUNDDOWN start PAGE_SIZE + of_nat (unat n) * PAGE_SIZE) <
             arena_pos (arena_list st) (ROUNDDOWN start PAGE_SIZE + of_nat (unat n - 1) * PAGE_SIZE))) \<and>
         st' = st\<lparr>arena_list :=
                  foldl take_page (arena_list st) (range_pages (ROUNDDOWN start PAGE_SIZE) (unat n))\<rparr>"
proof (cases "count = 0")
  case True
  with assms(3) have "n = 0" "st' = st"
    by (simp_all add: pmm_alloc_range_def)
  with True show ?thesis
    by simp
next
  case False
  let ?ad = "ROUNDDOWN start PAGE_SIZE"
  obtain al ad' list' as'
    where r: "pmm_alloc_range_loop count 0 ?ad list (arena_list st) = (al, ad', list', as')"
    by (metis prod_cases4)
  with False assms(3) have e: "n = ucast al" "st' = st\<lparr>arena_list := as'\<rparr>"
    by (simp_all add: pmm_alloc_range_def)
  from e(1) have un: "unat n = unat al"
    by (simp add: unat_ucast_uint)
  have "unat (0 :: uint) \<le> unat count"
    by simp
  from loop_exact [OF assms(2) assms(1) r this]
  obtain m where g: "unat al = unat (0 :: uint) + m"
    "list_all (page_free_at (arena_list st)) (range_pages ?ad m)"
    "sorted (map (arena_pos (arena_list st)) (range_pages ?ad m))"
    "as' = foldl take_page (arena_list st) (range_pages ?ad m)"
    "unat al < unat count \<longrightarrow>
       \<not> page_free_at (arena_list st) (?ad + of_nat m * PAGE_SIZE) \<or>
       (0 < m \<and> arena_pos (arena_list st) (?ad + of_nat m * PAGE_SIZE) <
                arena_pos (arena_list st) (?ad + of_nat (m - 1) * PAGE_SIZE))"
    by (elim exE conjE)
  from g(1) un have m: "m = unat n"
    by simp
  from g(2) have a1: "list_all (page_free_at (arena_list st)) (range_pages ?ad (unat n))"
    by (simp only: m)
  from g(3) have a2: "sorted (map (arena_pos (arena_list st)) (range_pages ?ad (unat n)))"
    by (simp only: m)
  from g(5) have a3: "unat n < unat count \<longrightarrow>
       \<not> page_free_at (arena_list st) (?ad + of_nat (unat n) * PAGE_SIZE) \<or>
       (0 < unat n \<and> arena_pos (arena_list st) (?ad + of_nat (unat n) * PAGE_SIZE) <
                arena_pos (arena_list st) (?ad + of_nat (unat n - 1) * PAGE_SIZE))"
    by (simp only: m un [symmetric])
  from g(4) e(2) have a4: "st' = st\<lparr>arena_list :=
                  foldl take_page (arena_list st) (range_pages ?ad (unat n))\<rparr>"
    by (simp only: m)
  from a1 a2 a3 a4 show ?thesis
    by (intro conjI)
qed

text \<open>
  Claim C3, as the program has it. \<^verbatim>\<open>pmm_alloc_range\<close> rounds the start address
  down to a page boundary. With arenas that do not overlap and a count below \<open>2^32\<close>
  (\<^verbatim>\<open>allocated\<close> is a \<^verbatim>\<open>uint\<close>), the call appends \<open>n\<close> frames to the list
  and returns \<open>n\<close>, with \<open>n\<close> at most \<open>count\<close>; the frame of index \<open>i\<close> is the
  frame of the page at the rounded start plus \<open>i\<close> pages, and it was free at the call. So
  no returned frame lies outside the \<open>count\<close> pages from the rounded start, and no frame
  is returned from a page that is allocated or outside every arena, nor from any page
  after it. With a single arena the frames are all the frames up to there: when fewer
  than \<open>count\<close> frames come back, the page of index \<open>n\<close> is allocated or outside
  the arena.

  With several arenas the program walks the registry once. The \<open>n\<close> pages taken are
  free, and the positions of their arenas in the registry never decrease from one page to
  the next. When fewer than \<open>count\<close> frames come back, the page of index \<open>n\<close> is
  allocated, or outside every arena, or held by an arena that stands in the registry
  before the arena of the page of index \<open>n - 1\<close>. This fixes \<open>n\<close>: it is the first
  index at which one of these holds. The state after the call is the state before it with
  these \<open>n\<close> pages taken.
\<close>

theorem pmm_alloc_range_prefix:
  assumes "no_overlap (arena_list st)" and "unat count < 2 ^ 32"
    and "pmm_alloc_range start count (Some l) st = (n, lo, st')"
  shows "\<exists>fs. lo = Some (l @ fs) \<and> length fs = unat n \<and> unat n \<le> unat count \<and>
           (\<forall>i<unat n.
              paddr_to_vm_page st (ROUNDDOWN start PAGE_SIZE + of_nat i * PAGE_SIZE) = Some (fs ! i) \<and>
              page_is_free st (fs ! i)) \<and>
           (\<forall>k. (\<forall>p. paddr_to_vm_page st (ROUNDDOWN start PAGE_SIZE + of_nat k * PAGE_SIZE) = Some p \<longrightarrow>
                      \<not> page_is_free st p) \<longrightarrow> unat n \<le> k) \<and>
           (length (arena_list st) = 1 \<and> unat n < unat count \<longrightarrow>
              (\<forall>p. paddr_to_vm_page st (ROUNDDOWN start PAGE_SIZE + of_nat (unat n) * PAGE_SIZE) = Some p \<longrightarrow>
                   \<not> page_is_free st p)) \<and>
           list_all (page_free_at (arena_list st)) (range_pages (ROUNDDOWN start PAGE_SIZE) (unat n)) \<and>
           sorted (map (arena_pos (arena_list st)) (range_pages (ROUNDDOWN start PAGE_SIZE) (unat n))) \<and>
           (unat n < unat count \<longrightarrow>
              \<not> page_free_at (arena_list st) (ROUNDDOWN start PAGE_SIZE + of_nat (unat n) * PAGE_SIZE) \<or>
              (0 < unat n \<and>
               arena_pos (arena_list st) (ROUNDDOWN start PAGE_SIZE + of_nat (unat n) * PAGE_SIZE) <
               arena_pos (arena_list st) (ROUNDDOWN start PAGE_SIZE + of_nat (unat n - 1) * PAGE_SIZE))) \<and>
           st' = st\<lparr>arena_list :=
                    foldl take_page (arena_list st) (range_pages (ROUNDDOWN start PAGE_SIZE) (unat n))\<rparr>"
proof -
  let ?ad = "ROUNDDOWN start PAGE_SIZE"
  note x = range_exact [OF assms]
  from x have x1: "list_all (page_free_at (arena_list st)) (range_pages ?ad (unat n))"
    by (rule conjunct1)
  from x have x2: "sorted (map (arena_pos (arena_list st)) (range_pages ?ad (unat n)))"
    by (elim conjE)
  from x have x3: "unat n < unat count \<longrightarrow>
              \<not> page_free_at (arena_list st) (?ad + of_nat (unat n) * PAGE_SIZE) \<or>
              (0 < unat n \<and>
               arena_pos (arena_list st) (?ad + of_nat (unat n) * PAGE_SIZE) <
               arena_pos (arena_list st) (?ad + of_nat (unat n - 1) * PAGE_SIZE))"
    by (elim conjE)
  from x have x4: "st' = st\<lparr>arena_list := foldl take_page (arena_list st) (range_pages ?ad (unat n))\<rparr>"
    by (elim conjE)
  have "\<exists>fs. lo = Some (l @ fs) \<and> length fs = unat n \<and> unat n \<le> unat count \<and>
           (\<forall>i<unat n.
              paddr_to_vm_page st (?ad + of_nat i * PAGE_SIZE) = Some (fs ! i) \<and>
              page_is_free st (fs ! i)) \<and>
           (\<forall>k. (\<forall>p. paddr_to_vm_page st (?ad + of_nat k * PAGE_SIZE) = Some p \<longrightarrow>
                      \<not> page_is_free st p) \<longrightarrow> unat n \<le> k) \<and>
           (length (arena_list st) = 1 \<and> unat n < unat count \<longrightarrow>
              (\<forall>p. paddr_to_vm_page st (?ad + of_nat (unat n) * PAGE_SIZE) = Some p \<longrightarrow>
                   \<not> page_is_free st p))"
  proof (cases "count = 0")
    case True
    with assms(3) show ?thesis
      by (intro exI [of _ "[]"]) (auto simp: pmm_alloc_range_def)
  next
    case False
    obtain al ad' list' as'
      where r: "pmm_alloc_range_loop count 0 ?ad (Some l) (arena_list st) = (al, ad', list', as')"
      by (metis prod_cases4)
    with False assms(3) have e: "n = ucast al" "lo = list'"
      by (simp_all add: pmm_alloc_range_def)
    from loop_props [OF assms(2) r]
    obtain fs where f: "unat al = unat (0 :: uint) + length fs" "unat al \<le> unat count"
      "list' = (case Some l of None \<Rightarrow> None | Some l \<Rightarrow> Some (l @ fs))"
      "taken_in (arena_list st) ?ad fs"
      by (auto elim!: exE conjE)
    from e(1) have un: "unat n = unat al"
      by (simp add: unat_ucast_uint)
    have ix: "paddr_to_vm_page st (?ad + of_nat i * PAGE_SIZE) = Some (fs ! i) \<and> page_is_free st (fs ! i)"
      if "i < unat n" for i
      using taken_in_index [OF f(4) assms(1), of i] that un f(1)
      by (simp add: paddr_to_vm_page_def page_is_free_def)
    have st: "unat n \<le> k"
      if "\<forall>p. paddr_to_vm_page st (?ad + of_nat k * PAGE_SIZE) = Some p \<longrightarrow> \<not> page_is_free st p" for k
    proof (rule ccontr)
      assume "\<not> unat n \<le> k"
      then have "k < unat n" by simp
      from ix [OF this] that show False by blast
    qed
    have mx: "\<forall>p. paddr_to_vm_page st (?ad + of_nat (unat n) * PAGE_SIZE) = Some p \<longrightarrow>
                  \<not> page_is_free st p"
      if "length (arena_list st) = 1" "unat n < unat count"
    proof -
      from that(1) obtain a where "arena_list st = [a]"
        by (cases "arena_list st") auto
      from single_arena_max [OF assms(2) this assms(3) that(2)] show ?thesis .
    qed
    from e f un ix st mx show ?thesis
      by (intro exI [of _ fs]) simp
  qed
  then obtain fs where y: "lo = Some (l @ fs) \<and> length fs = unat n \<and> unat n \<le> unat count \<and>
           (\<forall>i<unat n.
              paddr_to_vm_page st (?ad + of_nat i * PAGE_SIZE) = Some (fs ! i) \<and>
              page_is_free st (fs ! i)) \<and>
           (\<forall>k. (\<forall>p. paddr_to_vm_page st (?ad + of_nat k * PAGE_SIZE) = Some p \<longrightarrow>
                      \<not> page_is_free st p) \<longrightarrow> unat n \<le> k) \<and>
           (length (arena_list st) = 1 \<and> unat n < unat count \<longrightarrow>
              (\<forall>p. paddr_to_vm_page st (?ad + of_nat (unat n) * PAGE_SIZE) = Some p \<longrightarrow>
                   \<not> page_is_free st p))"
    ..
  from y x1 x2 x3 x4 show ?thesis
    by (intro exI [of _ fs]) (elim conjE, intro conjI)
qed


lemma alloc_range_T:
  "pmm_alloc_range 0 10 (Some []) state_T =
     (3, Some [0x100000, 0x100020, 0x100040],
      state_T\<lparr>arena_list :=
        [arena_T\<lparr>free_list := [0x100080, 0x1000A0, 0x1000C0, 0x1000E0, 0x100100, 0x100120],
                  free_count := 6\<rparr>]\<rparr>)"
  by (simp add: pmm_alloc_range_def pmm_alloc_range_inner.simps AllocSpecific_def
      address_in_arena_def get_page_def base_def ROUNDDOWN_def Let_def
      state_T_def arena_T_def test_arena_def PAGE_SIZE_def VM_PAGE_STRUCT_SIZE_def)

lemma alloc_range_AB_unaligned:
  "pmm_alloc_range 1 1 (Some []) state_AB =
     (1, Some [0x100000],
      state_AB\<lparr>arena_list := [arena_A\<lparr>free_list := [0x100020], free_count := 1\<rparr>, arena_B]\<rparr>)"
  by (simp add: pmm_alloc_range_def pmm_alloc_range_inner.simps AllocSpecific_def
      address_in_arena_def get_page_def base_def ROUNDDOWN_def Let_def example_defs)

lemma alloc_range_EL:
  "pmm_alloc_range 0 4 (Some []) state_EL =
     (2, Some [0x100000, 0x100020],
      state_EL\<lparr>arena_list := [arena_E, arena_L\<lparr>free_list := [], free_count := 0\<rparr>]\<rparr>)"
  by (simp add: pmm_alloc_range_def pmm_alloc_range_inner.simps AllocSpecific_def
      address_in_arena_def get_page_def base_def size_arena_def ROUNDDOWN_def Let_def
      state_EL_def arena_E_def arena_L_def test_arena_def PAGE_SIZE_def VM_PAGE_STRUCT_SIZE_def)

text \<open>
  Arenas that stand in the registry against the order of their addresses: the call for
  four pages from address 0 passes arena E, takes the two pages of arena L and ends. The
  page at \<open>0x2000\<close> is free, in arena E, which stands before arena L.
\<close>

lemma alloc_range_arena_order:
  "pmm_alloc_range 0 4 (Some []) state_EL =
     (2, Some [0x100000, 0x100020],
      state_EL\<lparr>arena_list := [arena_E, arena_L\<lparr>free_list := [], free_count := 0\<rparr>]\<rparr>) \<and>
   page_free_at (arena_list state_EL) 0x2000 \<and>
   arena_pos (arena_list state_EL) 0x2000 = 0 \<and> arena_pos (arena_list state_EL) 0x1000 = 1"
  by (simp add: alloc_range_EL)
     (simp add: address_in_arena_def frame_for_def get_page_def base_def size_arena_def
       state_EL_def arena_E_def arena_L_def test_arena_def PAGE_SIZE_def VM_PAGE_STRUCT_SIZE_def)

text \<open>
  A start address that is not page aligned: the call for one page at address 1 returns
  the frame of the page at address 0, which is below the start.
\<close>

theorem pmm_alloc_range_unaligned_start:
  "pmm_alloc_range 1 1 (Some []) state_AB =
     (1, Some [0x100000],
      state_AB\<lparr>arena_list := [arena_A\<lparr>free_list := [0x100020], free_count := 1\<rparr>, arena_B]\<rparr>) \<and>
   vm_page_to_paddr state_AB 0x100000 = 0 \<and> (0 :: paddr_t) < 1"
  by (simp add: alloc_range_AB_unaligned)
     (simp add: vm_page_to_paddr_def page_belongs_to_arena_def page_address_from_arena_def
       example_defs)

text \<open>
  The example of the claim: one arena of the pages 0 to 9 with page 3 allocated; the call
  for 10 pages from address 0 returns the frames of the pages 0, 1 and 2 and the count 3.
\<close>

theorem pmm_alloc_range_prefix_witness:
  "no_overlap (arena_list state_T) \<and> unat (10 :: size_t) < 2 ^ 32 \<and>
   pmm_alloc_range 0 10 (Some []) state_T =
     (3, Some [0x100000, 0x100020, 0x100040],
      state_T\<lparr>arena_list :=
        [arena_T\<lparr>free_list := [0x100080, 0x1000A0, 0x1000C0, 0x1000E0, 0x100100, 0x100120],
                  free_count := 6\<rparr>]\<rparr>) \<and>
   paddr_to_vm_page state_T 0x2000 = Some 0x100040 \<and> page_is_free state_T 0x100040 \<and>
   paddr_to_vm_page state_T 0x3000 = Some 0x100060 \<and> \<not> page_is_free state_T 0x100060"
proof -
  have h1: "no_overlap (arena_list state_T)"
    by (simp add: state_T_def)
  have h2: "unat (10 :: size_t) < 2 ^ 32"
    by simp
  from pmm_alloc_range_prefix [OF h1 h2 alloc_range_T]
  obtain fs where f: "Some [0x100000, 0x100020, 0x100040] = Some ([] @ fs)"
    "\<forall>i<unat (3 :: size_t).
       paddr_to_vm_page state_T (ROUNDDOWN 0 PAGE_SIZE + of_nat i * PAGE_SIZE) = Some (fs ! i) \<and>
       page_is_free state_T (fs ! i)"
    by (elim exE conjE)
  from f(1) have fs: "fs = [0x100000, 0x100020, 0x100040]"
    by simp
  have "(2 :: nat) < unat (3 :: size_t)"
    by simp
  with f(2) have "paddr_to_vm_page state_T (ROUNDDOWN 0 PAGE_SIZE + of_nat 2 * PAGE_SIZE) = Some (fs ! 2) \<and>
       page_is_free state_T (fs ! 2)"
    by blast
  with fs have 2: "paddr_to_vm_page state_T 0x2000 = Some 0x100040" "page_is_free state_T 0x100040"
    by (simp_all add: ROUNDDOWN_def PAGE_SIZE_def)
  have 3: "paddr_to_vm_page state_T 0x3000 = Some 0x100060" "\<not> page_is_free state_T 0x100060"
    by (simp_all add: paddr_to_vm_page_def page_is_free_def address_in_arena_def get_page_def base_def
        state_T_def arena_T_def test_arena_def PAGE_SIZE_def VM_PAGE_STRUCT_SIZE_def)
  from h1 h2 alloc_range_T 2 3 show ?thesis
    by simp
qed

subsection \<open>A null output list\<close>

text \<open>
  Claim C10. \<^verbatim>\<open>pmm_alloc_pages\<close> trips its assertion on a null list.
  \<^verbatim>\<open>pmm_alloc_range\<close> accepts one: it records the frames nowhere, and it returns
  the count and leaves the state of the same call with a list. With arenas that do not
  overlap and a count below \<open>2^32\<close>, what the call allocates is this: the \<open>n\<close> pages
  from the rounded start on are free, the positions of their arenas in the registry never
  decrease, and the state after the call is the state before it with these \<open>n\<close> pages
  taken, each off the free list of its arena; \<open>n\<close> is the count returned, and when it
  is less than \<open>count\<close>, the page of index \<open>n\<close> is allocated, or outside every
  arena, or held by an arena that stands in the registry before the arena of the page of
  index \<open>n - 1\<close>.
\<close>

theorem alloc_range_null_list:
  assumes "pmm_alloc_range address count None st = (n, lo, st')"
  shows "pmm_alloc_pages count alloc_flags None st = Inl ASSERT_FAILED \<and>
         lo = None \<and>
         fst (pmm_alloc_range address count (Some l) st) = n \<and>
         snd (snd (pmm_alloc_range address count (Some l) st)) = st' \<and>
         (no_overlap (arena_list st) \<and> unat count < 2 ^ 32 \<longrightarrow>
            unat n \<le> unat count \<and>
            list_all (page_free_at (arena_list st))
              (range_pages (ROUNDDOWN address PAGE_SIZE) (unat n)) \<and>
            sorted (map (arena_pos (arena_list st))
              (range_pages (ROUNDDOWN address PAGE_SIZE) (unat n))) \<and>
            (unat n < unat count \<longrightarrow>
               \<not> page_free_at (arena_list st)
                   (ROUNDDOWN address PAGE_SIZE + of_nat (unat n) * PAGE_SIZE) \<or>
               (0 < unat n \<and>
                arena_pos (arena_list st) (ROUNDDOWN address PAGE_SIZE + of_nat (unat n) * PAGE_SIZE) <
                arena_pos (arena_list st)
                  (ROUNDDOWN address PAGE_SIZE + of_nat (unat n - 1) * PAGE_SIZE))) \<and>
            st' = st\<lparr>arena_list :=
                     foldl take_page (arena_list st)
                       (range_pages (ROUNDDOWN address PAGE_SIZE) (unat n))\<rparr>)"
proof -
  let ?ad = "ROUNDDOWN address PAGE_SIZE"
  have 1: "pmm_alloc_pages count alloc_flags None st = Inl ASSERT_FAILED"
    by (simp add: pmm_alloc_pages_def)
  obtain al ad' l' as'
    where r: "pmm_alloc_range_loop count 0 ?ad (Some l) (arena_list st) = (al, ad', l', as')"
    by (metis prod_cases4)
  from loop_None [OF r] r assms
  have 2: "lo = None" "fst (pmm_alloc_range address count (Some l) st) = n"
    "snd (snd (pmm_alloc_range address count (Some l) st)) = st'"
    by (auto simp: pmm_alloc_range_def split: if_splits)
  have 3: "unat n \<le> unat count \<and>
            list_all (page_free_at (arena_list st)) (range_pages ?ad (unat n)) \<and>
            sorted (map (arena_pos (arena_list st)) (range_pages ?ad (unat n))) \<and>
            (unat n < unat count \<longrightarrow>
               \<not> page_free_at (arena_list st) (?ad + of_nat (unat n) * PAGE_SIZE) \<or>
               (0 < unat n \<and>
                arena_pos (arena_list st) (?ad + of_nat (unat n) * PAGE_SIZE) <
                arena_pos (arena_list st) (?ad + of_nat (unat n - 1) * PAGE_SIZE))) \<and>
            st' = st\<lparr>arena_list := foldl take_page (arena_list st) (range_pages ?ad (unat n))\<rparr>"
    if h: "no_overlap (arena_list st)" "unat count < 2 ^ 32"
  proof -
    have le: "unat n \<le> unat count"
    proof (cases "count = 0")
      case True
      with assms show ?thesis
        by (simp add: pmm_alloc_range_def)
    next
      case False
      obtain al0 ad0 l0 as0
        where r0: "pmm_alloc_range_loop count 0 ?ad None (arena_list st) = (al0, ad0, l0, as0)"
        by (metis prod_cases4)
      with False assms have "n = ucast al0"
        by (simp add: pmm_alloc_range_def)
      then have un: "unat n = unat al0"
        by (simp add: unat_ucast_uint)
      from loop_props [OF h(2) r0] have "unat al0 \<le> unat count"
        by (auto elim!: exE conjE)
      with un show ?thesis
        by simp
    qed
    from le range_exact [OF h assms] show ?thesis
      by (intro conjI) (elim conjE, assumption)+
  qed
  from 1 2 3 show ?thesis
    by blast
qed

lemma alloc_range_AB_null:
  "pmm_alloc_range 0 3 None state_AB =
     (2, None, state_AB\<lparr>arena_list := [arena_A\<lparr>free_list := [], free_count := 0\<rparr>, arena_B]\<rparr>)"
  by (simp add: pmm_alloc_range_def pmm_alloc_range_inner.simps AllocSpecific_def
      address_in_arena_def get_page_def base_def ROUNDDOWN_def Let_def example_defs)

lemma state_AB_no_overlap: "no_overlap (arena_list state_AB)"
  by (simp add: ranges_apart_def base_def size_arena_def example_defs)

text \<open>
  Three pages from address 0 with a null list, over arenas A and B: the call takes the two
  pages of arena A and returns 2, as it does with a list; the page at \<open>0x2000\<close> lies
  in no arena.
\<close>

theorem alloc_range_null_list_witness:
  "pmm_alloc_range 0 3 None state_AB =
     (2, None, state_AB\<lparr>arena_list := [arena_A\<lparr>free_list := [], free_count := 0\<rparr>, arena_B]\<rparr>) \<and>
   no_overlap (arena_list state_AB) \<and> unat (3 :: size_t) < 2 ^ 32 \<and>
   pmm_alloc_pages 3 0 None state_AB = Inl ASSERT_FAILED \<and>
   fst (pmm_alloc_range 0 3 (Some []) state_AB) = 2 \<and>
   snd (snd (pmm_alloc_range 0 3 (Some []) state_AB)) =
     state_AB\<lparr>arena_list := [arena_A\<lparr>free_list := [], free_count := 0\<rparr>, arena_B]\<rparr> \<and>
   range_pages 0 2 = [0, 0x1000] \<and>
   list_all (page_free_at (arena_list state_AB)) [0, 0x1000] \<and>
   \<not> page_free_at (arena_list state_AB) 0x2000 \<and>
   foldl take_page (arena_list state_AB) [0, 0x1000] =
     [arena_A\<lparr>free_list := [], free_count := 0\<rparr>, arena_B]"
proof -
  let ?S = "state_AB\<lparr>arena_list := [arena_A\<lparr>free_list := [], free_count := 0\<rparr>, arena_B]\<rparr>"
  have h2: "unat (3 :: size_t) < 2 ^ 32"
    by simp
  have rd: "ROUNDDOWN 0 PAGE_SIZE = 0"
    by (simp add: ROUNDDOWN_def)
  have rp: "range_pages 0 2 = [0, 0x1000]"
    by (simp add: range_pages_def upt_0_2 PAGE_SIZE_def)
  note t = alloc_range_null_list [OF alloc_range_AB_null, of 0 "[]"]
  from t have 1: "pmm_alloc_pages 3 0 None state_AB = Inl ASSERT_FAILED"
    by (rule conjunct1)
  from t have 2: "fst (pmm_alloc_range 0 3 (Some []) state_AB) = 2"
    by (elim conjE)
  from t have 3: "snd (snd (pmm_alloc_range 0 3 (Some []) state_AB)) = ?S"
    by (elim conjE)
  from t state_AB_no_overlap h2
  have 4: "list_all (page_free_at (arena_list state_AB)) (range_pages (ROUNDDOWN 0 PAGE_SIZE) (unat (2 :: size_t)))"
    by blast
  from t state_AB_no_overlap h2
  have 6: "?S = state_AB\<lparr>arena_list := foldl take_page (arena_list state_AB)
                   (range_pages (ROUNDDOWN 0 PAGE_SIZE) (unat (2 :: size_t)))\<rparr>"
    by blast
  from 4 have f4: "list_all (page_free_at (arena_list state_AB)) [0, 0x1000]"
    by (simp add: rd rp)
  have f5: "\<not> page_free_at (arena_list state_AB) 0x2000"
    by (simp add: address_in_arena_def base_def size_arena_def example_defs)
  from 6 have "arena_list ?S = arena_list (state_AB\<lparr>arena_list := foldl take_page (arena_list state_AB)
                   (range_pages (ROUNDDOWN 0 PAGE_SIZE) (unat (2 :: size_t)))\<rparr>)"
    by (rule arg_cong)
  then have f6: "foldl take_page (arena_list state_AB) [0, 0x1000] =
     [arena_A\<lparr>free_list := [], free_count := 0\<rparr>, arena_B]"
    by (simp add: rd rp)
  from alloc_range_AB_null state_AB_no_overlap h2 1 2 3 rp f4 f5 f6 show ?thesis
    by (intro conjI)
qed

end
